theory Spec2Isabelle
  imports Complex_Main "HOL-Library.AList" "HOL-Library.Log_Nat"
begin

section \<open>Coverage object utilities (lib/object-utils.js)\<close>

text \<open>
  A shallow embedding of \<^verbatim>\<open>lib/object-utils.js\<close>. A JavaScript number is a
  double-precision floating-point number. A number that holds a count or a line is an
  integer here, and stands for a JavaScript number when its magnitude is at most
  \<open>2 ^ 53\<close>, the range in which every integer is a double. The operators of
  \<^verbatim>\<open>percent\<close> and the additions of \<^verbatim>\<open>mergeFileCoverage\<close> round their results to the
  nearest double. The counters that \<^verbatim>\<open>mergeSummaryObjects\<close> and the aggregators add up
  are written as integer sums, which is what the source computes while the sums stay
  within \<open>2 ^ 53\<close>. A function that changes its argument returns the argument as it is
  after the call, next to its result; a function that can throw returns the error as a
  value.
\<close>

subsection \<open>Double-precision arithmetic\<close>

text \<open>
  A finite double is the rational number it denotes. \<open>js_round\<close> is the rounding of
  IEEE 754 binary64 (a significand of 53 bits, to nearest, ties to even) for the normal
  range of magnitudes, from \<open>2 powi - 1022\<close> up to \<open>2 powi 1024\<close>: it has no
  infinities and no subnormal numbers. For a positive \<open>x\<close>, \<open>binary_exponent x\<close> is the
  exponent \<open>e\<close> with \<open>2 powi e \<le> x < 2 powi (e + 1)\<close>, and \<open>x\<close> is rounded to a
  multiple of \<open>2 powi (e - 52)\<close>.
\<close>

definition round_half_even :: "rat \<Rightarrow> int" where
  "round_half_even x =
     (let f = \<lfloor>x\<rfloor>; r = x - of_int f
      in if r < 1 / 2 then f else if 1 / 2 < r then f + 1 else if even f then f else f + 1)"

definition binary_exponent :: "rat \<Rightarrow> int" where
  "binary_exponent x =
     (let (p, q) = quotient_of x; e = bitlen p - bitlen q
      in if 2 powi e \<le> x then e else e - 1)"

definition js_round :: "rat \<Rightarrow> rat" where
  "js_round x =
     (if x = 0 then 0
      else (let ulp = 2 powi (binary_exponent \<bar>x\<bar> - 52)
            in sgn x * (of_int (round_half_even (\<bar>x\<bar> / ulp)) * ulp)))"

text \<open>
  The double that an integer argument denotes (the nearest one, as for a numeric
  literal), and the operators \<^verbatim>\<open>*\<close>, \<^verbatim>\<open>/\<close> and \<^verbatim>\<open>+\<close> on doubles: the exact
  result, rounded. The divisors of this file are never zero.
\<close>

definition js_number :: "int \<Rightarrow> rat" where
  "js_number i = js_round (of_int i)"

definition js_times :: "rat \<Rightarrow> rat \<Rightarrow> rat" where
  "js_times a b = js_round (a * b)"

definition js_divide :: "rat \<Rightarrow> rat \<Rightarrow> rat" where
  "js_divide a b = js_round (a / b)"

definition js_add :: "rat \<Rightarrow> rat \<Rightarrow> rat" where
  "js_add a b = js_round (a + b)"

subsection \<open>percent\<close>

text \<open>
  \<^verbatim>\<open>
  function percent(covered, total) {
      var tmp;
      if (total > 0) {
          tmp = 1000 * 100 * covered / total + 5;
          return Math.floor(tmp / 10) / 100;
      } else {
          return 100.00;
      }
  }
  \<close>
\<close>

text \<open>
  Every operator of the expression rounds: \<^verbatim>\<open>1000 * 100\<close>, the product with
  \<^verbatim>\<open>covered\<close>, the quotient by \<^verbatim>\<open>total\<close>, the sum with 5, the quotient by 10 and,
  after \<^verbatim>\<open>Math.floor\<close> (which is exact), the quotient by 100. The result is the double
  that the call returns. The test \<^verbatim>\<open>total > 0\<close> has the same outcome on an integer and
  on the double nearest to it.
\<close>

definition percent :: "int \<Rightarrow> int \<Rightarrow> rat" where
  "percent covered total' =
     (if total' > 0 then
        (let tmp = js_add (js_divide (js_times (js_times 1000 100) (js_number covered))
                                     (js_number total')) 5
         in js_divide (of_int \<lfloor>js_divide tmp 10\<rfloor>) 100)
      else 100)"

text \<open>
  The specification's wording of the same function, kept apart for comparison, in exact
  arithmetic: the value 100 exactly when the total is zero, the rounded quotient for
  every other total.
\<close>

definition percent_spec :: "int \<Rightarrow> int \<Rightarrow> rat" where
  "percent_spec covered total' =
     (if total' = 0 then 100
      else of_int \<lfloor>(of_int covered / of_int total' * 100 * 1000 + (5::rat)) / 10\<rfloor> / 100)"

subsection \<open>Summaries\<close>

text \<open>
  A metrics object is \<^verbatim>\<open>{ total: n, covered: m, pct: percent }\<close>, where \<^verbatim>\<open>pct\<close> is
  a number or the string \<^verbatim>\<open>'Unknown'\<close>. A summary has one metrics object for each of
  \<^verbatim>\<open>lines\<close>, \<^verbatim>\<open>statements\<close>, \<^verbatim>\<open>functions\<close> and \<^verbatim>\<open>branches\<close>.
  The fields \<^verbatim>\<open>total\<close> and \<^verbatim>\<open>covered\<close> carry the suffix \<open>_n\<close>, the field
  \<^verbatim>\<open>functions\<close> the suffix \<open>_m\<close>.
\<close>

datatype pct_value = Unknown | Pct rat

record metrics =
  total_n :: int
  covered_n :: int
  pct :: pct_value

record summary =
  lines :: metrics
  statements :: metrics
  functions_m :: metrics
  branches :: metrics

definition blankSummary :: summary where
  "blankSummary =
     \<lparr> lines = \<lparr> total_n = 0, covered_n = 0, pct = Unknown \<rparr>,
       statements = \<lparr> total_n = 0, covered_n = 0, pct = Unknown \<rparr>,
       functions_m = \<lparr> total_n = 0, covered_n = 0, pct = Unknown \<rparr>,
       branches = \<lparr> total_n = 0, covered_n = 0, pct = Unknown \<rparr> \<rparr>"

text \<open>The property names of a summary, and \<^verbatim>\<open>ret[key]\<close> read and written.\<close>

datatype category = Lines | Statements | Branches | Functions

fun get_cat :: "summary \<Rightarrow> category \<Rightarrow> metrics" where
  "get_cat r Lines = lines r"
| "get_cat r Statements = statements r"
| "get_cat r Branches = branches r"
| "get_cat r Functions = functions_m r"

fun set_cat :: "summary \<Rightarrow> category \<Rightarrow> metrics \<Rightarrow> summary" where
  "set_cat r Lines m = r\<lparr> lines := m \<rparr>"
| "set_cat r Statements m = r\<lparr> statements := m \<rparr>"
| "set_cat r Branches m = r\<lparr> branches := m \<rparr>"
| "set_cat r Functions m = r\<lparr> functions_m := m \<rparr>"

text \<open>
  \<^verbatim>\<open>
  function mergeSummaryObjects() {
      var ret = blankSummary(),
          args = Array.prototype.slice.call(arguments),
          keys = ['lines', 'statements', 'branches', 'functions'],
          increment = function (obj) {
              if (obj) {
                  keys.forEach(function (key) {
                      ret[key].total += obj[key].total;
                      ret[key].covered += obj[key].covered;
                  });
              }
          };
      args.forEach(function (arg) {
          increment(arg);
      });
      keys.forEach(function (key) {
          ret[key].pct = percent(ret[key].covered, ret[key].total);
      });
      return ret;
  }
  \<close>
  An argument is a summary or a falsy value (\<^verbatim>\<open>undefined\<close>, \<^verbatim>\<open>null\<close>), which is
  \<open>None\<close>. The object \<^verbatim>\<open>ret\<close> is the state threaded through both loops.
\<close>

definition summary_keys :: "category list" where
  "summary_keys = [Lines, Statements, Branches, Functions]"

definition increment :: "summary option \<Rightarrow> summary \<Rightarrow> summary" where
  "increment obj ret =
     (case obj of
        None \<Rightarrow> ret
      | Some ob \<Rightarrow>
          fold (\<lambda>key r.
                  let r1 = set_cat r key
                             ((get_cat r key)\<lparr> total_n := total_n (get_cat r key) + total_n (get_cat ob key) \<rparr>)
                  in set_cat r1 key
                       ((get_cat r1 key)\<lparr> covered_n := covered_n (get_cat r1 key) + covered_n (get_cat ob key) \<rparr>))
               summary_keys ret)"

definition mergeSummaryObjects :: "summary option list \<Rightarrow> summary" where
  "mergeSummaryObjects args =
     (let ret = fold increment args blankSummary
      in fold (\<lambda>key r.
                 set_cat r key
                   ((get_cat r key)\<lparr> pct := Pct (percent (covered_n (get_cat r key)) (total_n (get_cat r key))) \<rparr>))
              summary_keys ret)"

subsection \<open>Coverage objects\<close>

text \<open>
  A JavaScript object is the list of its own enumerable properties, key and value, in the
  order in which \<^verbatim>\<open>Object.keys\<close> lists them; the keys of an object are distinct.
  \<^verbatim>\<open>o[k]\<close> is \<^const>\<open>map_of\<close> (\<open>None\<close> is \<^verbatim>\<open>undefined\<close>) and the assignment
  \<^verbatim>\<open>o[k] = v\<close> is \<^const>\<open>AList.update\<close>: an existing key keeps its place, a new key
  goes last. (For keys that are array indices JavaScript lists them in ascending order
  instead; the results below are therefore compared as maps, through \<^const>\<open>map_of\<close>.)

  A counter is a JavaScript number. The instrumenter writes integers; the addition of
  \<^verbatim>\<open>undefined\<close> yields \<^verbatim>\<open>NaN\<close>, and \<^verbatim>\<open>JSON.stringify\<close> writes \<^verbatim>\<open>NaN\<close> as
  \<^verbatim>\<open>null\<close>, so both are values a counter can hold.
\<close>

datatype jsnum = Num int | NaN | Null

datatype error = TypeError

text \<open>\<^verbatim>\<open>ToNumber\<close>: \<^verbatim>\<open>null\<close> is 0; \<open>None\<close> stands for \<^verbatim>\<open>NaN\<close>.\<close>

fun to_number :: "jsnum \<Rightarrow> int option" where
  "to_number (Num n) = Some n"
| "to_number NaN = None"
| "to_number Null = Some 0"

text \<open>\<^verbatim>\<open>a < b\<close> on numbers: false as soon as one side is \<^verbatim>\<open>NaN\<close>.\<close>

definition js_lt :: "jsnum \<Rightarrow> jsnum \<Rightarrow> bool" where
  "js_lt a b =
     (case (to_number a, to_number b) of
        (Some x, Some y) \<Rightarrow> x < y
      | _ \<Rightarrow> False)"

text \<open>\<^verbatim>\<open>num > 0\<close>.\<close>

definition js_gt0 :: "jsnum \<Rightarrow> bool" where
  "js_gt0 num = js_lt (Num 0) num"

text \<open>\<^verbatim>\<open>if (v)\<close>: 0, \<^verbatim>\<open>NaN\<close> and \<^verbatim>\<open>null\<close> are falsy.\<close>

fun truthy :: "jsnum \<Rightarrow> bool" where
  "truthy (Num n) = (n \<noteq> 0)"
| "truthy NaN = False"
| "truthy Null = False"

text \<open>
  \<^verbatim>\<open>x + y\<close> where each side is a number, \<^verbatim>\<open>null\<close> or \<^verbatim>\<open>undefined\<close> (\<open>None\<close>):
  \<^verbatim>\<open>undefined\<close> converts to \<^verbatim>\<open>NaN\<close>. The sum of two numbers is the double nearest
  to the exact sum, so from \<open>2 ^ 53\<close> on it can differ from the integer sum. The sum of
  two integer doubles is an integer, of which \<open>\<lfloor>_\<rfloor>\<close> is the value.
\<close>

definition js_plus :: "jsnum option \<Rightarrow> jsnum option \<Rightarrow> jsnum" where
  "js_plus x y =
     (case (Option.bind x to_number, Option.bind y to_number) of
        (Some m, Some n) \<Rightarrow> Num \<lfloor>js_add (js_number m) (js_number n)\<rfloor>
      | _ \<Rightarrow> NaN)"

text \<open>A number after \<^verbatim>\<open>JSON.parse(JSON.stringify(...))\<close>.\<close>

fun json_num :: "jsnum \<Rightarrow> jsnum" where
  "json_num NaN = Null"
| "json_num v = v"

text \<open>
  The entries of \<^verbatim>\<open>statementMap\<close> (\<^verbatim>\<open>{start: {line, column}, end: {line, column}}\<close>)
  and of \<^verbatim>\<open>fnMap\<close> (\<^verbatim>\<open>{name, line}\<close>).
\<close>

record loc =
  loc_line :: int
  loc_column :: int

record stmt_entry =
  start_loc :: loc
  end_loc :: loc

record fn_entry =
  fn_name :: string
  fn_line :: int

text \<open>
  The coverage object of one file. The fields \<^verbatim>\<open>s\<close>, \<^verbatim>\<open>f\<close>, \<^verbatim>\<open>b\<close> and \<^verbatim>\<open>l\<close>
  are \<open>s_counts\<close>, \<open>f_counts\<close>, \<open>b_counts\<close> and \<open>l_counts\<close>; \<^verbatim>\<open>l\<close> may be absent.
\<close>

record FileCoverage =
  statementMap :: "(string \<times> stmt_entry) list"
  s_counts :: "(string \<times> jsnum) list"
  fnMap :: "(string \<times> fn_entry) list"
  f_counts :: "(string \<times> jsnum) list"
  b_counts :: "(string \<times> jsnum list) list"
  l_counts :: "(int \<times> jsnum) list option"

subsection \<open>addDerivedInfoForFile\<close>

text \<open>
  \<^verbatim>\<open>
  function addDerivedInfoForFile(fileCoverage) {
      var statementMap = fileCoverage.statementMap,
          statements = fileCoverage.s,
          lineMap;
      if (!fileCoverage.l) {
          fileCoverage.l = lineMap = {};
          Object.keys(statements).forEach(function (st) {
              var line = statementMap[st].start.line,
                  count = statements[st],
                  prevVal = lineMap[line];
              if (typeof prevVal === 'undefined' || prevVal < count) {
                  lineMap[line] = count;
              }
          });
      }
  }
  \<close>
  The loop runs over the entries of \<^verbatim>\<open>statements\<close> with \<^verbatim>\<open>lineMap\<close> as its state.
  Reading \<^verbatim>\<open>.start\<close> of an absent \<^verbatim>\<open>statementMap[st]\<close> throws a \<^verbatim>\<open>TypeError\<close>; the
  lines stored until then stay in \<^verbatim>\<open>fileCoverage.l\<close>. The function returns the outcome
  and the file object as it is after the call.
\<close>

fun addDerivedInfoForFile_loop ::
  "(string \<times> stmt_entry) list \<Rightarrow> (string \<times> jsnum) list \<Rightarrow> (int \<times> jsnum) list
     \<Rightarrow> (error + unit) \<times> (int \<times> jsnum) list" where
  "addDerivedInfoForFile_loop stmtMap [] lineMap = (Inr (), lineMap)"
| "addDerivedInfoForFile_loop stmtMap ((st, count) # rest) lineMap =
     (case map_of stmtMap st of
        None \<Rightarrow> (Inl TypeError, lineMap)
      | Some entry \<Rightarrow>
          (let line = loc_line (start_loc entry);
               prevVal = map_of lineMap line
           in addDerivedInfoForFile_loop stmtMap rest
                (if (case prevVal of None \<Rightarrow> True | Some p \<Rightarrow> js_lt p count)
                 then AList.update line count lineMap
                 else lineMap)))"

definition addDerivedInfoForFile :: "FileCoverage \<Rightarrow> (error + unit) \<times> FileCoverage" where
  "addDerivedInfoForFile fileCoverage =
     (case l_counts fileCoverage of
        None \<Rightarrow>
          (let (r, lineMap) =
                 addDerivedInfoForFile_loop (statementMap fileCoverage) (s_counts fileCoverage) []
           in (r, fileCoverage\<lparr> l_counts := Some lineMap \<rparr>))
      | Some _ \<Rightarrow> (Inr (), fileCoverage))"

subsection \<open>Totals of one category\<close>

text \<open>
  \<^verbatim>\<open>
  function computeSimpleTotals(fileCoverage, property) {
      var stats = fileCoverage[property],
          ret = { total: 0, covered: 0 };
      Object.keys(stats).forEach(function (key) {
          ret.total += 1;
          if (stats[key]) {
              ret.covered += 1;
          }
      });
      ret.pct = percent(ret.covered, ret.total);
      return ret;
  }
  \<close>
  The argument of the model is \<^verbatim>\<open>stats\<close>, that is \<^verbatim>\<open>fileCoverage[property]\<close>; the
  state of the loop is the pair of \<^verbatim>\<open>ret.total\<close> and \<^verbatim>\<open>ret.covered\<close>.
\<close>

definition computeSimpleTotals :: "('k \<times> jsnum) list \<Rightarrow> metrics" where
  "computeSimpleTotals stats =
     (let (tot, cov) =
            fold (\<lambda>(key, v) (tot, cov). (tot + 1, if truthy v then cov + 1 else cov))
                 stats (0, 0)
      in \<lparr> total_n = tot, covered_n = cov, pct = Pct (percent cov tot) \<rparr>)"

text \<open>
  \<^verbatim>\<open>
  function computeBranchTotals(fileCoverage) {
      var stats = fileCoverage.b,
          ret = { total: 0, covered: 0 };
      Object.keys(stats).forEach(function (key) {
          var branches = stats[key],
              covered = branches.filter(function (num) { return num > 0; });
          ret.total += branches.length;
          ret.covered += covered.length;
      });
      ret.pct = percent(ret.covered, ret.total);
      return ret;
  }
  \<close>
\<close>

definition computeBranchTotals :: "FileCoverage \<Rightarrow> metrics" where
  "computeBranchTotals fileCoverage =
     (let stats = b_counts fileCoverage;
          (tot, cov) =
            fold (\<lambda>(key, branches) (tot, cov).
                    (let covered = filter js_gt0 branches
                     in (tot + int (length branches), cov + int (length covered))))
                 stats (0, 0)
      in \<lparr> total_n = tot, covered_n = cov, pct = Pct (percent cov tot) \<rparr>)"

subsection \<open>summarizeFileCoverage\<close>

text \<open>
  \<^verbatim>\<open>
  function summarizeFileCoverage(fileCoverage) {
      var ret = blankSummary();
      addDerivedInfoForFile(fileCoverage);
      ret.lines = computeSimpleTotals(fileCoverage, 'l');
      ret.functions = computeSimpleTotals(fileCoverage, 'f');
      ret.statements = computeSimpleTotals(fileCoverage, 's');
      ret.branches = computeBranchTotals(fileCoverage);
      return ret;
  }
  \<close>
  The result is the outcome (the summary, or the error thrown) and the file object as the
  call leaves it.
\<close>

definition summarizeFileCoverage :: "FileCoverage \<Rightarrow> (error + summary) \<times> FileCoverage" where
  "summarizeFileCoverage fileCoverage =
     (let ret = blankSummary;
          (r, fc) = addDerivedInfoForFile fileCoverage
      in case r of
           Inl e \<Rightarrow> (Inl e, fc)
         | Inr _ \<Rightarrow>
             (case l_counts fc of
                None \<Rightarrow> (Inl TypeError, fc)
              | Some lineMap \<Rightarrow>
                  (let ret = ret\<lparr> lines := computeSimpleTotals lineMap \<rparr>;
                       ret = ret\<lparr> functions_m := computeSimpleTotals (f_counts fc) \<rparr>;
                       ret = ret\<lparr> statements := computeSimpleTotals (s_counts fc) \<rparr>;
                       ret = ret\<lparr> branches := computeBranchTotals fc \<rparr>
                   in (Inr ret, fc))))"

subsection \<open>mergeFileCoverage\<close>

text \<open>
  \<^verbatim>\<open>
  function mergeFileCoverage(first, second) {
      var ret = JSON.parse(JSON.stringify(first)),
          i;
      delete ret.l; //remove derived info
      Object.keys(second.s).forEach(function (k) {
          ret.s[k] += second.s[k];
      });
      Object.keys(second.f).forEach(function (k) {
          ret.f[k] += second.f[k];
      });
      Object.keys(second.b).forEach(function (k) {
          var retArray = ret.b[k],
              secondArray = second.b[k];
          for (i = 0; i < retArray.length; i += 1) {
              retArray[i] += secondArray[i];
          }
      });
      return ret;
  }
  \<close>
  This subsection gives the function on values: what the returned object holds. The
  round trip through JSON keeps every key, string and integer and writes \<^verbatim>\<open>NaN\<close> as
  \<^verbatim>\<open>null\<close>. \<^verbatim>\<open>ret.s[k] += v\<close> reads \<^verbatim>\<open>undefined\<close> for an absent key and stores the
  sum under it; \<^verbatim>\<open>retArray.length\<close> of an absent \<^verbatim>\<open>ret.b[k]\<close> throws a
  \<^verbatim>\<open>TypeError\<close>; \<^verbatim>\<open>secondArray[i]\<close> past the end of the array is \<^verbatim>\<open>undefined\<close>.
  Keys are looked up among the own properties of an object: a key that names a member
  of \<^verbatim>\<open>Object.prototype\<close>, such as \<^verbatim>\<open>toString\<close>, would find that member where the
  object has no such property of its own; the instrumenter numbers its ids, and such
  keys are not part of this model.
\<close>

definition json_counts :: "('k \<times> jsnum) list \<Rightarrow> ('k \<times> jsnum) list" where
  "json_counts stats = map (\<lambda>(k, v). (k, json_num v)) stats"

definition json_copy :: "FileCoverage \<Rightarrow> FileCoverage" where
  "json_copy fc =
     fc\<lparr> s_counts := json_counts (s_counts fc),
         f_counts := json_counts (f_counts fc),
         b_counts := map (\<lambda>(k, arr). (k, map json_num arr)) (b_counts fc),
         l_counts := map_option json_counts (l_counts fc) \<rparr>"

definition merge_counts :: "(string \<times> jsnum) list \<Rightarrow> (string \<times> jsnum) list \<Rightarrow> (string \<times> jsnum) list" where
  "merge_counts retCounts secondCounts =
     fold (\<lambda>(k, v) r. AList.update k (js_plus (map_of r k) (Some v)) r) secondCounts retCounts"

definition array_get :: "'a list \<Rightarrow> nat \<Rightarrow> 'a option" where
  "array_get xs i = (if i < length xs then Some (xs ! i) else None)"

definition merge_arrays :: "jsnum list \<Rightarrow> jsnum list \<Rightarrow> jsnum list" where
  "merge_arrays retArray secondArray =
     fold (\<lambda>i arr. arr[i := js_plus (array_get arr i) (array_get secondArray i)])
          [0..<length retArray] retArray"

fun merge_branches ::
  "(string \<times> jsnum list) list \<Rightarrow> (string \<times> jsnum list) list \<Rightarrow> error + (string \<times> jsnum list) list" where
  "merge_branches retB [] = Inr retB"
| "merge_branches retB ((k, secondArray) # rest) =
     (case map_of retB k of
        None \<Rightarrow> Inl TypeError
      | Some retArray \<Rightarrow>
          merge_branches (AList.update k (merge_arrays retArray secondArray) retB) rest)"

definition mergeFileCoverage :: "FileCoverage \<Rightarrow> FileCoverage \<Rightarrow> error + FileCoverage" where
  "mergeFileCoverage first second =
     (let ret = json_copy first;
          ret = ret\<lparr> l_counts := None \<rparr>;
          ret = ret\<lparr> s_counts := merge_counts (s_counts ret) (s_counts second) \<rparr>;
          ret = ret\<lparr> f_counts := merge_counts (f_counts ret) (f_counts second) \<rparr>
      in case merge_branches (b_counts ret) (b_counts second) of
           Inl e \<Rightarrow> Inl e
         | Inr retB \<Rightarrow> Inr (ret\<lparr> b_counts := retB \<rparr>))"

subsection \<open>Coverage maps\<close>


definition removeDerivedInfo :: "(string \<times> FileCoverage) list \<Rightarrow> (string \<times> FileCoverage) list" where
  "removeDerivedInfo coverage = map (\<lambda>(k, fc). (k, fc\<lparr> l_counts := None \<rparr>)) coverage"

subsection \<open>toYUICoverage\<close>










section \<open>mergeFileCoverage on objects with identity\<close>

text \<open>
  Whether \<^verbatim>\<open>mergeFileCoverage\<close> changes its arguments depends on which objects its
  assignments reach, so this section gives the function on a heap. An object is an
  address; the heap maps the addresses of each kind of object to its content and knows
  the next unused address. A file coverage object holds the addresses of its parts, and
  the object \<^verbatim>\<open>b\<close> holds the addresses of its arrays. Parts may be shared between
  objects.
\<close>

type_synonym addr = nat

record file_obj =
  statementMap_ref :: addr
  s_ref :: addr
  fnMap_ref :: addr
  f_ref :: addr
  b_ref :: addr
  l_ref :: "addr option"

record heap =
  file_at :: "addr \<Rightarrow> file_obj"
  stmts_at :: "addr \<Rightarrow> (string \<times> stmt_entry) list"
  fns_at :: "addr \<Rightarrow> (string \<times> fn_entry) list"
  counts_at :: "addr \<Rightarrow> (string \<times> jsnum) list"
  branches_at :: "addr \<Rightarrow> (string \<times> addr) list"
  array_at :: "addr \<Rightarrow> jsnum list"
  lines_at :: "addr \<Rightarrow> (int \<times> jsnum) list"
  next_addr :: addr

text \<open>The value of a file coverage object: what \<^verbatim>\<open>JSON.stringify\<close> walks through.\<close>

definition read_file :: "heap \<Rightarrow> addr \<Rightarrow> FileCoverage" where
  "read_file h a =
     (let fo = file_at h a
      in \<lparr> statementMap = stmts_at h (statementMap_ref fo),
           s_counts = counts_at h (s_ref fo),
           fnMap = fns_at h (fnMap_ref fo),
           f_counts = counts_at h (f_ref fo),
           b_counts = map (\<lambda>(k, r). (k, array_at h r)) (branches_at h (b_ref fo)),
           l_counts = map_option (lines_at h) (l_ref fo) \<rparr>)"

text \<open>Every object that \<^verbatim>\<open>JSON.parse\<close> creates gets the next unused address.\<close>

definition new_stmts :: "(string \<times> stmt_entry) list \<Rightarrow> heap \<Rightarrow> addr \<times> heap" where
  "new_stmts v h =
     (next_addr h, h\<lparr> stmts_at := (stmts_at h)(next_addr h := v), next_addr := Suc (next_addr h) \<rparr>)"

definition new_fns :: "(string \<times> fn_entry) list \<Rightarrow> heap \<Rightarrow> addr \<times> heap" where
  "new_fns v h =
     (next_addr h, h\<lparr> fns_at := (fns_at h)(next_addr h := v), next_addr := Suc (next_addr h) \<rparr>)"

definition new_counts :: "(string \<times> jsnum) list \<Rightarrow> heap \<Rightarrow> addr \<times> heap" where
  "new_counts v h =
     (next_addr h, h\<lparr> counts_at := (counts_at h)(next_addr h := v), next_addr := Suc (next_addr h) \<rparr>)"

definition new_array :: "jsnum list \<Rightarrow> heap \<Rightarrow> addr \<times> heap" where
  "new_array v h =
     (next_addr h, h\<lparr> array_at := (array_at h)(next_addr h := v), next_addr := Suc (next_addr h) \<rparr>)"

definition new_branches :: "(string \<times> addr) list \<Rightarrow> heap \<Rightarrow> addr \<times> heap" where
  "new_branches v h =
     (next_addr h, h\<lparr> branches_at := (branches_at h)(next_addr h := v), next_addr := Suc (next_addr h) \<rparr>)"

definition new_lines :: "(int \<times> jsnum) list \<Rightarrow> heap \<Rightarrow> addr \<times> heap" where
  "new_lines v h =
     (next_addr h, h\<lparr> lines_at := (lines_at h)(next_addr h := v), next_addr := Suc (next_addr h) \<rparr>)"

definition new_file :: "file_obj \<Rightarrow> heap \<Rightarrow> addr \<times> heap" where
  "new_file v h =
     (next_addr h, h\<lparr> file_at := (file_at h)(next_addr h := v), next_addr := Suc (next_addr h) \<rparr>)"

fun new_arrays :: "(string \<times> jsnum list) list \<Rightarrow> heap \<Rightarrow> (string \<times> addr) list \<times> heap" where
  "new_arrays [] h = ([], h)"
| "new_arrays ((k, arr) # rest) h =
     (let (a, h) = new_array arr h;
          (refs, h) = new_arrays rest h
      in ((k, a) # refs, h))"

definition json_parse :: "FileCoverage \<Rightarrow> heap \<Rightarrow> addr \<times> heap" where
  "json_parse v h =
     (let (sm, h) = new_stmts (statementMap v) h;
          (s, h) = new_counts (s_counts v) h;
          (fm, h) = new_fns (fnMap v) h;
          (f, h) = new_counts (f_counts v) h;
          (arrays, h) = new_arrays (b_counts v) h;
          (b, h) = new_branches arrays h;
          (l, h) = (case l_counts v of
                      None \<Rightarrow> (None, h)
                    | Some lineMap \<Rightarrow> (let (a, h) = new_lines lineMap h in (Some a, h)))
      in new_file \<lparr> statementMap_ref = sm, s_ref = s, fnMap_ref = fm, f_ref = f,
                    b_ref = b, l_ref = l \<rparr> h)"

text \<open>
  \<^verbatim>\<open>Object.keys(second.s).forEach(function (k) { ret.s[k] += second.s[k]; })\<close>, and
  the same for \<^verbatim>\<open>f\<close>: the keys are listed once, and every round reads \<^verbatim>\<open>ret.s\<close>,
  \<^verbatim>\<open>ret.s[k]\<close>, \<^verbatim>\<open>second.s\<close> and \<^verbatim>\<open>second.s[k]\<close> from the heap as it is then.
\<close>

definition add_count :: "(file_obj \<Rightarrow> addr) \<Rightarrow> addr \<Rightarrow> addr \<Rightarrow> string \<Rightarrow> heap \<Rightarrow> heap" where
  "add_count field ret second k h =
     (let retCounts = field (file_at h ret);
          secondCounts = field (file_at h second);
          v = js_plus (map_of (counts_at h retCounts) k) (map_of (counts_at h secondCounts) k)
      in h\<lparr> counts_at := (counts_at h)(retCounts := AList.update k v (counts_at h retCounts)) \<rparr>)"

definition add_counts :: "(file_obj \<Rightarrow> addr) \<Rightarrow> addr \<Rightarrow> addr \<Rightarrow> heap \<Rightarrow> heap" where
  "add_counts field ret second h =
     fold (add_count field ret second) (map fst (counts_at h (field (file_at h second)))) h"

text \<open>
  \<^verbatim>\<open>for (i = 0; i < retArray.length; i += 1) { retArray[i] += secondArray[i]; }\<close>:
  the assignment never changes the length of \<^verbatim>\<open>retArray\<close>, so the loop runs over the
  indices of the array as it is at the start.
\<close>

definition add_arm :: "addr \<Rightarrow> addr \<Rightarrow> nat \<Rightarrow> heap \<Rightarrow> heap" where
  "add_arm retArray secondArray i h =
     (let v = js_plus (array_get (array_at h retArray) i) (array_get (array_at h secondArray) i)
      in h\<lparr> array_at := (array_at h)(retArray := (array_at h retArray)[i := v]) \<rparr>)"

definition add_arms :: "addr \<Rightarrow> addr \<Rightarrow> heap \<Rightarrow> heap" where
  "add_arms retArray secondArray h =
     fold (add_arm retArray secondArray) [0..<length (array_at h retArray)] h"

text \<open>
  The loop over \<^verbatim>\<open>Object.keys(second.b)\<close>. An absent \<^verbatim>\<open>ret.b[k]\<close> throws at
  \<^verbatim>\<open>retArray.length\<close>; an absent \<^verbatim>\<open>second.b[k]\<close> throws at \<^verbatim>\<open>secondArray[i]\<close>,
  when the loop over the arms runs at all.
\<close>

fun add_branches :: "addr \<Rightarrow> addr \<Rightarrow> string list \<Rightarrow> heap \<Rightarrow> (error + unit) \<times> heap" where
  "add_branches ret second [] h = (Inr (), h)"
| "add_branches ret second (k # ks) h =
     (case map_of (branches_at h (b_ref (file_at h ret))) k of
        None \<Rightarrow> (Inl TypeError, h)
      | Some retArray \<Rightarrow>
          (case map_of (branches_at h (b_ref (file_at h second))) k of
             None \<Rightarrow>
               (if array_at h retArray = [] then add_branches ret second ks h
                else (Inl TypeError, h))
           | Some secondArray \<Rightarrow>
               add_branches ret second ks (add_arms retArray secondArray h)))"

text \<open>
  The function itself: the result is the address of the new object, or the error thrown,
  together with the heap after the call.
\<close>

definition mergeFileCoverage_heap :: "heap \<Rightarrow> addr \<Rightarrow> addr \<Rightarrow> (error + addr) \<times> heap" where
  "mergeFileCoverage_heap h first second =
     (let (ret, h) = json_parse (json_copy (read_file h first)) h;
          h = h\<lparr> file_at := (file_at h)(ret := (file_at h ret)\<lparr> l_ref := None \<rparr>) \<rparr>;
          h = add_counts s_ref ret second h;
          h = add_counts f_ref ret second h;
          (r, h) = add_branches ret second (map fst (branches_at h (b_ref (file_at h second)))) h
      in case r of
           Inl e \<Rightarrow> (Inl e, h)
         | Inr _ \<Rightarrow> (Inr ret, h))"

section \<open>Vocabulary of the properties\<close>

text \<open>
  An argument that adds nothing to the sums of \<open>mergeSummaryObjects\<close>: an absent one, or a
  summary whose counters are all zero, such as a blank summary or a merge of blank
  summaries.
\<close>

definition blank_argument :: "summary option \<Rightarrow> bool" where
  "blank_argument x =
     (case x of
        None \<Rightarrow> True
      | Some z \<Rightarrow>
          list_all (\<lambda>key. total_n (get_cat z key) = 0 \<and> covered_n (get_cat z key) = 0)
            summary_keys)"

text \<open>A summary whose percentages are the ones \<open>percent\<close> computes from its counters.\<close>

definition pct_computed :: "summary \<Rightarrow> bool" where
  "pct_computed s =
     list_all
       (\<lambda>key. pct (get_cat s key) = Pct (percent (covered_n (get_cat s key)) (total_n (get_cat s key))))
       summary_keys"

definition recompute_pct :: "metrics \<Rightarrow> metrics" where
  "recompute_pct m = m\<lparr> pct := Pct (percent (covered_n m) (total_n m)) \<rparr>"

definition summary_example :: summary where
  "summary_example =
     \<lparr> lines = \<lparr> total_n = 3, covered_n = 1, pct = Pct (js_round (3333 / 100)) \<rparr>,
       statements = \<lparr> total_n = 3, covered_n = 2, pct = Pct (js_round (6667 / 100)) \<rparr>,
       functions_m = \<lparr> total_n = 0, covered_n = 0, pct = Pct 100 \<rparr>,
       branches = \<lparr> total_n = 5, covered_n = 0, pct = Pct 0 \<rparr> \<rparr>"

text \<open>A counter that holds an integer, as every counter the instrumenter writes does.\<close>

fun is_int :: "jsnum \<Rightarrow> bool" where
  "is_int (Num n) = True"
| "is_int NaN = False"
| "is_int Null = False"

text \<open>
  A file with two statements that start on line 1 and one on line 2, one function and one
  branch with three arms; its line counts are not derived yet.
\<close>

definition file_example :: FileCoverage where
  "file_example =
     \<lparr> statementMap =
         [(''1'', \<lparr> start_loc = \<lparr> loc_line = 1, loc_column = 0 \<rparr>, end_loc = \<lparr> loc_line = 1, loc_column = 9 \<rparr> \<rparr>),
          (''2'', \<lparr> start_loc = \<lparr> loc_line = 1, loc_column = 11 \<rparr>, end_loc = \<lparr> loc_line = 1, loc_column = 20 \<rparr> \<rparr>),
          (''3'', \<lparr> start_loc = \<lparr> loc_line = 2, loc_column = 0 \<rparr>, end_loc = \<lparr> loc_line = 4, loc_column = 1 \<rparr> \<rparr>)],
       s_counts = [(''1'', Num 1), (''2'', Num 4), (''3'', Num 0)],
       fnMap = [(''1'', \<lparr> fn_name = ''foo'', fn_line = 2 \<rparr>)],
       f_counts = [(''1'', Num 3)],
       b_counts = [(''1'', [Num 1, Num 0, Num 2])],
       l_counts = None \<rparr>"

text \<open>
  A counter that holds an integer of magnitude at most \<open>m\<close>, and a file coverage object
  whose counters in \<^verbatim>\<open>s\<close>, \<^verbatim>\<open>f\<close> and \<^verbatim>\<open>b\<close> are integers of magnitude at most
  \<open>2 ^ 52\<close>: the sum of two such counters is at most \<open>2 ^ 53\<close>.
\<close>

fun bounded_by :: "int \<Rightarrow> jsnum \<Rightarrow> bool" where
  "bounded_by m (Num n) = (\<bar>n\<bar> \<le> m)"
| "bounded_by m NaN = False"
| "bounded_by m Null = False"

definition bounded_counters :: "FileCoverage \<Rightarrow> bool" where
  "bounded_counters fc =
     (list_all (\<lambda>(k, v). bounded_by (2 ^ 52) v) (s_counts fc)
      \<and> list_all (\<lambda>(k, v). bounded_by (2 ^ 52) v) (f_counts fc)
      \<and> list_all (\<lambda>(k, arms). list_all (bounded_by (2 ^ 52)) arms) (b_counts fc))"

text \<open>
  Two coverage objects for the same file: identical \<^verbatim>\<open>statementMap\<close> and \<^verbatim>\<open>fnMap\<close>,
  the same keys in \<^verbatim>\<open>s\<close>, in \<^verbatim>\<open>f\<close> and in \<^verbatim>\<open>b\<close>, and for every branch the same
  number of arms. The key-wise sum of two counter objects and the index-wise sum of two
  branch objects are given as maps; the sum of two integer counters is their integer sum.
  \<open>added_counts\<close> and \<open>added_arms\<close> are the same maps with the operator \<^verbatim>\<open>+\<close> of the
  source in place of the integer sum.
\<close>

fun int_sum :: "jsnum \<Rightarrow> jsnum \<Rightarrow> jsnum" where
  "int_sum (Num x) (Num y) = Num (x + y)"
| "int_sum _ _ = NaN"

definition same_keys :: "('k \<times> 'a) list \<Rightarrow> ('k \<times> 'b) list \<Rightarrow> bool" where
  "same_keys xs ys =
     (distinct (map fst xs) \<and> distinct (map fst ys) \<and> set (map fst xs) = set (map fst ys))"

definition same_file :: "FileCoverage \<Rightarrow> FileCoverage \<Rightarrow> bool" where
  "same_file a b =
     (statementMap a = statementMap b \<and> fnMap a = fnMap b
      \<and> same_keys (s_counts a) (s_counts b)
      \<and> same_keys (f_counts a) (f_counts b)
      \<and> same_keys (b_counts a) (b_counts b)
      \<and> list_all (\<lambda>(k, arms). map_option length (map_of (b_counts b) k) = Some (length arms))
            (b_counts a))"

definition sum_counts :: "(string \<times> jsnum) list \<Rightarrow> (string \<times> jsnum) list \<Rightarrow> string \<Rightarrow> jsnum option" where
  "sum_counts xs ys k =
     (case (map_of xs k, map_of ys k) of
        (Some x, Some y) \<Rightarrow> Some (int_sum x y)
      | _ \<Rightarrow> None)"

definition sum_arms ::
  "(string \<times> jsnum list) list \<Rightarrow> (string \<times> jsnum list) list \<Rightarrow> string \<Rightarrow> jsnum list option" where
  "sum_arms xs ys k =
     (case (map_of xs k, map_of ys k) of
        (Some arms, Some arms') \<Rightarrow> Some (map2 int_sum arms arms')
      | _ \<Rightarrow> None)"

definition added_counts :: "(string \<times> jsnum) list \<Rightarrow> (string \<times> jsnum) list \<Rightarrow> string \<Rightarrow> jsnum option" where
  "added_counts xs ys k =
     (case (map_of xs k, map_of ys k) of
        (Some x, Some y) \<Rightarrow> Some (js_plus (Some x) (Some y))
      | _ \<Rightarrow> None)"

definition added_arms ::
  "(string \<times> jsnum list) list \<Rightarrow> (string \<times> jsnum list) list \<Rightarrow> string \<Rightarrow> jsnum list option" where
  "added_arms xs ys k =
     (case (map_of xs k, map_of ys k) of
        (Some arms, Some arms') \<Rightarrow> Some (map2 (\<lambda>x y. js_plus (Some x) (Some y)) arms arms')
      | _ \<Rightarrow> None)"

definition merge_example_a :: FileCoverage where
  "merge_example_a =
     \<lparr> statementMap =
         [(''s1'', \<lparr> start_loc = \<lparr> loc_line = 1, loc_column = 0 \<rparr>, end_loc = \<lparr> loc_line = 1, loc_column = 9 \<rparr> \<rparr>),
          (''s2'', \<lparr> start_loc = \<lparr> loc_line = 2, loc_column = 0 \<rparr>, end_loc = \<lparr> loc_line = 2, loc_column = 9 \<rparr> \<rparr>)],
       s_counts = [(''s1'', Num 1), (''s2'', Num 0)],
       fnMap = [(''f1'', \<lparr> fn_name = ''foo'', fn_line = 1 \<rparr>)],
       f_counts = [(''f1'', Num 1)],
       b_counts = [(''b1'', [Num 1, Num 0])],
       l_counts = Some [(1, Num 1), (2, Num 0)] \<rparr>"

definition merge_example_b :: FileCoverage where
  "merge_example_b =
     merge_example_a\<lparr> s_counts := [(''s1'', Num 2), (''s2'', Num 3)],
                      f_counts := [(''f1'', Num 2)],
                      b_counts := [(''b1'', [Num 0, Num 5])],
                      l_counts := None \<rparr>"










text \<open>
  Two heaps that agree on every object below an address; a file coverage object all of
  whose parts lie below the next unused address, as every object of a heap built by
  allocation does; and two heaps that differ at most in counter objects and arrays from an
  address on.
\<close>

definition unchanged_below :: "addr \<Rightarrow> heap \<Rightarrow> heap \<Rightarrow> bool" where
  "unchanged_below n h h' =
     (\<forall>a<n. file_at h' a = file_at h a \<and> stmts_at h' a = stmts_at h a \<and> fns_at h' a = fns_at h a
           \<and> counts_at h' a = counts_at h a \<and> branches_at h' a = branches_at h a
           \<and> array_at h' a = array_at h a \<and> lines_at h' a = lines_at h a)"

definition allocated :: "heap \<Rightarrow> addr \<Rightarrow> bool" where
  "allocated h a =
     (let n = next_addr h; fo = file_at h a
      in a < n \<and> statementMap_ref fo < n \<and> s_ref fo < n \<and> fnMap_ref fo < n \<and> f_ref fo < n
         \<and> b_ref fo < n \<and> list_all (\<lambda>(k, r). r < n) (branches_at h (b_ref fo))
         \<and> (case l_ref fo of None \<Rightarrow> True | Some r \<Rightarrow> r < n))"

definition only_new_counters :: "addr \<Rightarrow> heap \<Rightarrow> heap \<Rightarrow> bool" where
  "only_new_counters n h h' =
     (file_at h' = file_at h \<and> stmts_at h' = stmts_at h \<and> fns_at h' = fns_at h
      \<and> branches_at h' = branches_at h \<and> lines_at h' = lines_at h \<and> next_addr h' = next_addr h
      \<and> (\<forall>a<n. counts_at h' a = counts_at h a \<and> array_at h' a = array_at h a))"

text \<open>
  A heap with the two objects of the example above at the addresses 8 and 9; they share
  their \<^verbatim>\<open>statementMap\<close> and \<^verbatim>\<open>fnMap\<close> objects.
\<close>

definition heap_example :: heap where
  "heap_example =
     \<lparr> file_at = (\<lambda>_. \<lparr> statementMap_ref = 0, s_ref = 0, fnMap_ref = 0, f_ref = 0, b_ref = 0, l_ref = None \<rparr>)
          (8 := \<lparr> statementMap_ref = 0, s_ref = 1, fnMap_ref = 2, f_ref = 3, b_ref = 5, l_ref = Some 6 \<rparr>,
           9 := \<lparr> statementMap_ref = 0, s_ref = 7, fnMap_ref = 2, f_ref = 10, b_ref = 12, l_ref = None \<rparr>),
       stmts_at = (\<lambda>_. [])(0 := statementMap merge_example_a),
       fns_at = (\<lambda>_. [])(2 := fnMap merge_example_a),
       counts_at = (\<lambda>_. [])(1 := [(''s1'', Num 1), (''s2'', Num 0)], 3 := [(''f1'', Num 1)],
                               7 := [(''s1'', Num 2), (''s2'', Num 3)], 10 := [(''f1'', Num 2)]),
       branches_at = (\<lambda>_. [])(5 := [(''b1'', 4)], 12 := [(''b1'', 11)]),
       array_at = (\<lambda>_. [])(4 := [Num 1, Num 0], 11 := [Num 0, Num 5]),
       lines_at = (\<lambda>_. [])(6 := [(1, Num 1), (2, Num 0)]),
       next_addr = 13 \<rparr>"

text \<open>Two heaps that differ at most in counter objects, or at most in arrays.\<close>

definition same_but_counts :: "heap \<Rightarrow> heap \<Rightarrow> bool" where
  "same_but_counts h h' =
     (file_at h' = file_at h \<and> stmts_at h' = stmts_at h \<and> fns_at h' = fns_at h
      \<and> branches_at h' = branches_at h \<and> array_at h' = array_at h \<and> lines_at h' = lines_at h
      \<and> next_addr h' = next_addr h)"

definition same_but_arrays :: "heap \<Rightarrow> heap \<Rightarrow> bool" where
  "same_but_arrays h h' =
     (file_at h' = file_at h \<and> stmts_at h' = stmts_at h \<and> fns_at h' = fns_at h
      \<and> branches_at h' = branches_at h \<and> counts_at h' = counts_at h \<and> lines_at h' = lines_at h
      \<and> next_addr h' = next_addr h)"

section \<open>Properties\<close>

subsection \<open>Double-precision arithmetic\<close>

text \<open>
  Rounding moves a number by at most the fraction \<open>1 / 2 ^ 53\<close> of its magnitude, and
  leaves every integer of magnitude up to \<open>2 ^ 53\<close> as it is.
\<close>

lemma round_half_even_error: "\<bar>of_int (round_half_even x) - x\<bar> \<le> 1 / 2"
proof -
  have f: "of_int \<lfloor>x\<rfloor> \<le> x" "x < of_int \<lfloor>x\<rfloor> + 1" by linarith+
  show ?thesis
    using f unfolding round_half_even_def Let_def
    by (simp add: abs_le_iff)
qed

lemma round_half_even_int [simp]: "round_half_even (of_int n) = n"
  by (simp add: round_half_even_def)

lemma binary_exponent_bounds:
  assumes "0 < x"
  shows "2 powi binary_exponent x \<le> x \<and> x < 2 powi (binary_exponent x + 1)"
proof -
  obtain p q where pq: "quotient_of x = (p, q)" by (cases "quotient_of x")
  then have x: "x = of_int p / of_int q" and q: "0 < q"
    by (simp_all add: quotient_of_div quotient_of_denom_pos)
  with assms have p: "0 < p" by (simp add: zero_less_divide_iff)
  define bp where "bp = bitlen p"
  define bq where "bq = bitlen q"
  from bitlen_bounds [OF p] have p1: "(2::int) ^ nat (bp - 1) \<le> p" and p2: "p < 2 ^ nat bp"
    by (simp_all add: bp_def)
  from bitlen_bounds [OF q] have q1: "(2::int) ^ nat (bq - 1) \<le> q" and q2: "q < 2 ^ nat bq"
    by (simp_all add: bq_def)
  have bp1: "1 \<le> bp" using p by (simp add: bp_def bitlen_alt_def)
  have bq1: "1 \<le> bq" using q by (simp add: bq_def bitlen_alt_def)
  have P1: "(2::rat) powi (bp - 1) \<le> of_int p"
  proof -
    have "(2::rat) powi (bp - 1) = of_int (2 ^ nat (bp - 1))" using bp1 by (simp add: power_int_def)
    also have "\<dots> \<le> of_int p" using p1 by (simp only: of_int_le_iff)
    finally show ?thesis .
  qed
  have P2: "of_int p < (2::rat) powi bp"
  proof -
    have "of_int p < (of_int (2 ^ nat bp) :: rat)" using p2 by (simp only: of_int_less_iff)
    also have "\<dots> = 2 powi bp" using bp1 by (simp add: power_int_def)
    finally show ?thesis .
  qed
  have Q1: "(2::rat) powi (bq - 1) \<le> of_int q"
  proof -
    have "(2::rat) powi (bq - 1) = of_int (2 ^ nat (bq - 1))" using bq1 by (simp add: power_int_def)
    also have "\<dots> \<le> of_int q" using q1 by (simp only: of_int_le_iff)
    finally show ?thesis .
  qed
  have Q2: "of_int q < (2::rat) powi bq"
  proof -
    have "of_int q < (of_int (2 ^ nat bq) :: rat)" using q2 by (simp only: of_int_less_iff)
    also have "\<dots> = 2 powi bq" using bq1 by (simp add: power_int_def)
    finally show ?thesis .
  qed
  have qpos: "(0::rat) < of_int q" using q by simp
  have upper: "x < 2 powi (bp - bq + 1)"
  proof -
    have "of_int p < (2::rat) powi (bp - bq + 1) * 2 powi (bq - 1)"
      using P2 by (simp add: power_int_add [symmetric])
    also have "\<dots> \<le> 2 powi (bp - bq + 1) * of_int q"
      using Q1 by (intro mult_left_mono) simp_all
    finally show ?thesis using qpos by (simp add: x pos_divide_less_eq)
  qed
  have lower: "2 powi (bp - bq - 1) < x"
  proof -
    have "(2::rat) powi (bp - bq - 1) * of_int q < 2 powi (bp - bq - 1) * 2 powi bq"
      using Q2 by (intro mult_strict_left_mono) simp_all
    also have "\<dots> = 2 powi (bp - 1)" by (simp add: power_int_add [symmetric])
    also have "\<dots> \<le> of_int p" by (rule P1)
    finally show ?thesis using qpos by (simp add: x pos_less_divide_eq)
  qed
  show ?thesis
  proof (cases "2 powi (bp - bq) \<le> x")
    case True
    then have "binary_exponent x = bp - bq"
      by (simp add: binary_exponent_def pq bp_def bq_def)
    with True upper show ?thesis by simp
  next
    case False
    then have "binary_exponent x = bp - bq - 1"
      by (simp add: binary_exponent_def pq bp_def bq_def)
    with False lower show ?thesis by simp
  qed
qed

lemma js_round_error: "\<bar>js_round x - x\<bar> \<le> \<bar>x\<bar> / 2 ^ 53"
proof (cases "x = 0")
  case True
  then show ?thesis by (simp add: js_round_def)
next
  case False
  define a where "a = \<bar>x\<bar>"
  define e where "e = binary_exponent a"
  define u where "u = (2::rat) powi (e - 52)"
  define k where "k = round_half_even (a / u)"
  from False have a: "0 < a" by (simp add: a_def)
  have u: "0 < u" by (simp add: u_def)
  have r: "js_round x = sgn x * (of_int k * u)"
    using False by (simp add: js_round_def Let_def a_def e_def u_def k_def)
  have x: "x = sgn x * a" by (simp add: a_def sgn_mult_abs)
  have "js_round x - x = sgn x * (of_int k * u - a)"
    by (subst r, subst (2) x) (simp add: algebra_simps)
  then have "\<bar>js_round x - x\<bar> = \<bar>of_int k * u - a\<bar>"
    using False by (simp add: abs_mult abs_sgn_eq)
  also have "\<dots> = \<bar>of_int k - a / u\<bar> * u"
  proof -
    have "of_int k * u - a = (of_int k - a / u) * u" using u by (simp add: field_simps)
    then show ?thesis using u by (simp add: abs_mult)
  qed
  also have "\<dots> \<le> 1 / 2 * u"
    using round_half_even_error [of "a / u"] u unfolding k_def
    by (intro mult_right_mono) simp_all
  also have "\<dots> = 2 powi e / 2 ^ 53"
  proof -
    have "(2::rat) powi ((e - 52) + 52) = 2 powi (e - 52) * 2 powi 52"
      by (rule power_int_add) simp
    then show ?thesis by (simp add: u_def)
  qed
  also have "\<dots> \<le> a / 2 ^ 53"
    using binary_exponent_bounds [OF a] by (simp add: e_def divide_right_mono)
  finally show ?thesis by (simp add: a_def)
qed

lemma js_round_int:
  assumes "\<bar>n\<bar> \<le> 2 ^ 53"
  shows "js_round (of_int n) = of_int n"
proof (cases "n = 0")
  case True
  then show ?thesis by (simp add: js_round_def)
next
  case False
  define x :: rat where "x = of_int n"
  define a where "a = \<bar>x\<bar>"
  define e where "e = binary_exponent a"
  define u where "u = (2::rat) powi (e - 52)"
  from False have xn: "x \<noteq> 0" by (simp add: x_def)
  have an: "a = of_int \<bar>n\<bar>" by (simp add: a_def x_def)
  from False have "1 \<le> \<bar>n\<bar>" by simp
  then have a1: "1 \<le> a" unfolding an by (simp only: of_int_1_le_iff)
  then have a: "0 < a" by simp
  from assms have a53: "a \<le> 2 ^ 53"
  proof -
    have "(of_int \<bar>n\<bar> :: rat) \<le> of_int (2 ^ 53)" using assms by (simp only: of_int_le_iff)
    then show ?thesis by (simp add: an)
  qed
  note b = binary_exponent_bounds [OF a, folded e_def]
  have e0: "0 \<le> e"
  proof (rule ccontr)
    assume "\<not> 0 \<le> e"
    then have "e + 1 \<le> 0" by simp
    then have "(2::rat) powi (e + 1) \<le> 2 powi 0" by (intro power_int_increasing) simp_all
    with b a1 show False by simp
  qed
  have e53: "e \<le> 53"
  proof -
    from b a53 have "(2::rat) powi e \<le> 2 powi 53" by simp
    then show ?thesis by (rule power_int_le_imp_le_exp [rotated]) simp_all
  qed
  have r: "js_round x = sgn x * (of_int (round_half_even (a / u)) * u)"
    using xn by (simp add: js_round_def Let_def a_def e_def u_def)
  have x: "x = sgn x * a" by (simp add: a_def sgn_mult_abs)
  have "of_int (round_half_even (a / u)) * u = a"
  proof (cases "e \<le> 52")
    case True
    define j where "j = nat (52 - e)"
    have u: "u = 1 / 2 ^ j" using True by (simp add: u_def j_def power_int_def power_one_over)
    then have "a / u = of_int (\<bar>n\<bar> * 2 ^ j)" by (simp add: an)
    then have "of_int (round_half_even (a / u)) = a / u"
      by (simp only: round_half_even_int)
    then show ?thesis by (simp add: u)
  next
    case False
    with e53 have e: "e = 53" by simp
    with b a53 have a': "a = 2 ^ 53" by simp
    have u: "u = 2" by (simp add: u_def e)
    have "a / u = of_int (2 ^ 52)" by (simp add: a' u)
    then have "of_int (round_half_even (a / u)) = a / u"
      by (simp only: round_half_even_int)
    then show ?thesis by (simp add: u)
  qed
  with r x have "js_round x = x" by simp
  then show ?thesis by (simp add: x_def)
qed

lemma js_round_zero [simp]: "js_round 0 = 0"
  by (simp add: js_round_def)

text \<open>
  Some doubles: the ones that the literals \<^verbatim>\<open>0.1\<close>, \<^verbatim>\<open>33.33\<close> and \<^verbatim>\<open>66.67\<close> denote,
  and two integers beyond \<open>2 ^ 53\<close>, where a tie goes to the even significand.
\<close>

lemma js_round_examples:
  "js_round (1 / 10) = 3602879701896397 / 36028797018963968
   \<and> js_round (3333 / 100) = 2345390243441541 / 70368744177664
   \<and> js_round (6667 / 100) = 4691484174324859 / 70368744177664
   \<and> js_round (2 ^ 53 + 1) = 2 ^ 53
   \<and> js_round (2 ^ 53 + 3) = 2 ^ 53 + 4"
  by code_simp

subsection \<open>percent\<close>

text \<open>
  For a positive total \<open>t\<close> and counters with \<open>100000 * \<bar>c\<bar> + 5 * t < 2 ^ 51\<close>, the
  rounding errors of the quotient, the sum and the second quotient do not reach the next
  integer: \<^verbatim>\<open>Math.floor\<close> returns the floor of the exact value.
\<close>

lemma percent_floor:
  assumes t: "0 < t" and M: "100000 * \<bar>c\<bar> + 5 * t < 2 ^ 51"
  shows "\<lfloor>js_divide (js_add (js_divide (js_times (js_times 1000 100) (js_number c)) (js_number t)) 5) 10\<rfloor>
           = (100000 * c + 5 * t) div (10 * t)"
proof -
  define N where "N = 100000 * c + 5 * t"
  define n where "n = N div (10 * t)"
  define y :: rat where "y = of_int (100000 * c) / of_int t"
  define q where "q = js_round y"
  define s where "s = js_round (q + 5)"
  define d where "d = js_round (s / 10)"
  have tr: "(0::rat) < of_int t" using t by simp
  have c53: "\<bar>c\<bar> \<le> 2 ^ 53" "\<bar>t\<bar> \<le> 2 ^ 53" "\<bar>100000 * c\<bar> \<le> 2 ^ 53"
    using t M by (simp_all add: abs_mult)
  have k: "js_times 1000 100 = 100000"
    using js_round_int [of 100000] by (simp add: js_times_def)
  have a: "js_times 100000 (js_number c) = of_int (100000 * c)"
    using js_round_int [OF c53(1)] js_round_int [OF c53(3)] by (simp add: js_times_def js_number_def)
  have tt: "js_number t = of_int t"
    using js_round_int [OF c53(2)] by (simp add: js_number_def)
  have d: "js_divide (js_add (js_divide (js_times (js_times 1000 100) (js_number c)) (js_number t)) 5) 10 = d"
    by (simp add: k a tt js_divide_def js_add_def d_def s_def q_def y_def)
  have x: "(y + 5) / 10 = of_int N / of_int (10 * t)"
    using tr by (simp add: y_def N_def field_simps)
  have "\<lfloor>d\<rfloor> = n"
  proof (cases "(10 * t) dvd N")
    case True
    then have N: "N = 10 * t * n" by (simp add: n_def)
    have "100000 * c = t * (10 * n - 5)" using N by (simp add: N_def algebra_simps)
    then have yi: "y = of_int (10 * n - 5)" using tr by (simp add: y_def)
    have ya: "\<bar>100000 * c\<bar> = t * \<bar>10 * n - 5\<bar>"
      using \<open>100000 * c = t * (10 * n - 5)\<close> t by (simp add: abs_mult)
    have "\<bar>10 * n - 5\<bar> \<le> t * \<bar>10 * n - 5\<bar>" using t by (simp add: mult_le_cancel_right1)
    with ya M t have b1: "\<bar>10 * n - 5\<bar> < 2 ^ 51" by (simp add: abs_mult)
    then have b2: "\<bar>10 * n - 5\<bar> \<le> 2 ^ 53" "\<bar>10 * n\<bar> \<le> 2 ^ 53" "\<bar>n\<bar> \<le> 2 ^ 53" by simp_all
    have "q = of_int (10 * n - 5)" using js_round_int [OF b2(1)] by (simp add: q_def yi)
    then have "q + 5 = of_int (10 * n)" by simp
    then have "s = of_int (10 * n)" using js_round_int [OF b2(2)] by (simp add: s_def)
    then have "s / 10 = of_int n" by simp
    then have "d = of_int n" using js_round_int [OF b2(3)] by (simp add: d_def)
    then show ?thesis by simp
  next
    case False
    define r where "r = N mod (10 * t)"
    have "r \<noteq> 0" using False by (simp add: r_def dvd_eq_mod_eq_0)
    moreover have "0 \<le> r" "r < 10 * t" using t by (simp_all add: r_def)
    ultimately have r: "1 \<le> r" "r \<le> 10 * t - 1" by simp_all
    have Nr: "N = n * (10 * t) + r" unfolding n_def r_def by (rule div_mult_mod_eq [symmetric])
    have xr: "(y + 5) / 10 = of_int n + of_int r / of_int (10 * t)"
      using tr by (simp add: x Nr field_simps)
    have t10: "(0::rat) < of_int (10 * t)" using t by simp
    have lo: "of_int n + 1 / of_int (10 * t) \<le> (y + 5) / 10"
    proof -
      have "(1::rat) \<le> of_int r" using r(1) by simp
      then have "1 / of_int (10 * t) \<le> (of_int r :: rat) / of_int (10 * t)"
        using t10 by (simp only: divide_le_cancel) simp
      then show ?thesis by (simp add: xr)
    qed
    have hi: "(y + 5) / 10 \<le> of_int n + 1 - 1 / of_int (10 * t)"
    proof -
      have "(of_int r :: rat) \<le> of_int (10 * t) - 1" using r(2) by (simp flip: of_int_diff)
      then have "(of_int r :: rat) / of_int (10 * t) \<le> (of_int (10 * t) - 1) / of_int (10 * t)"
        using t10 by (simp only: divide_le_cancel) simp
      also have "\<dots> = 1 - 1 / of_int (10 * t)" using t10 by (simp add: field_simps)
      finally show ?thesis by (simp add: xr)
    qed
    have e1: "\<bar>q - y\<bar> \<le> \<bar>y\<bar> / 2 ^ 53" unfolding q_def by (rule js_round_error)
    have e2: "\<bar>s - (q + 5)\<bar> \<le> \<bar>q + 5\<bar> / 2 ^ 53" unfolding s_def by (rule js_round_error)
    have e3: "\<bar>d - s / 10\<bar> \<le> \<bar>s / 10\<bar> / 2 ^ 53" unfolding d_def by (rule js_round_error)
    have err: "\<bar>d - (y + 5) / 10\<bar> \<le> 4 * (\<bar>y\<bar> + 5) / (10 * 2 ^ 53)"
    proof -
      define W where "W = \<bar>y\<bar> + 5"
      have p: "(2::rat) ^ 53 = 9007199254740992" by simp
      note f1 = e1 [unfolded p] and f2 = e2 [unfolded p] and f3 = e3 [unfolded p]
      have c1: "\<bar>q + 5\<bar> \<le> 5 / 4 * W"
        using f1 unfolding W_def by (simp add: abs_if split: if_splits)
      have c2: "\<bar>s\<bar> \<le> 3 / 2 * W"
        using f2 c1 by (simp add: abs_if split: if_splits)
      have g1: "\<bar>q - y\<bar> \<le> W / 9007199254740992"
        using f1 unfolding W_def by (simp add: abs_if split: if_splits)
      have g2: "\<bar>s - (q + 5)\<bar> \<le> 5 / 4 * W / 9007199254740992"
        using f2 c1 by (simp add: abs_if split: if_splits)
      have g3: "\<bar>d - s / 10\<bar> \<le> 3 / 2 * W / 10 / 9007199254740992"
        using f3 c2 by (simp add: abs_if split: if_splits)
      define a b c where "a = \<bar>d - s / 10\<bar>" and "b = \<bar>s - (q + 5)\<bar>" and "c = \<bar>q - y\<bar>"
      have "0 \<le> W" by (simp add: W_def)
      have "d - (y + 5) / 10 = (d - s / 10) + ((s - (q + 5)) / 10 + (q - y) / 10)"
        by (simp add: diff_divide_distrib add_divide_distrib)
      also have "\<bar>\<dots>\<bar> \<le> a + \<bar>(s - (q + 5)) / 10 + (q - y) / 10\<bar>"
        unfolding a_def by (rule abs_triangle_ineq)
      also have "\<bar>(s - (q + 5)) / 10 + (q - y) / 10\<bar> \<le> \<bar>(s - (q + 5)) / 10\<bar> + \<bar>(q - y) / 10\<bar>"
        by (rule abs_triangle_ineq)
      also have "\<dots> = b / 10 + c / 10" by (simp add: b_def c_def)
      finally have "\<bar>d - (y + 5) / 10\<bar> \<le> a + (b / 10 + c / 10)" by simp
      also have "\<dots> \<le> 4 * W / (10 * 9007199254740992)"
        using g1 g2 g3 \<open>0 \<le> W\<close> unfolding a_def [symmetric] b_def [symmetric] c_def [symmetric]
        by simp
      finally show ?thesis by (simp add: W_def)
    qed
    have W: "(\<bar>y\<bar> + 5) * of_int t = of_int (100000 * \<bar>c\<bar> + 5 * t)"
      using tr t by (simp add: y_def abs_mult field_simps)
    define Z where "Z = (\<bar>y\<bar> + 5) * of_int t"
    have "(of_int (100000 * \<bar>c\<bar> + 5 * t) :: rat) < of_int (2 ^ 51)"
      using M by (simp only: of_int_less_iff)
    then have Z: "Z < 2 ^ 51" by (simp add: W Z_def)
    have eq: "4 * (\<bar>y\<bar> + 5) / (10 * 2 ^ 53) * of_int (10 * t) = 4 * Z / 2 ^ 53"
      unfolding Z_def by simp
    have "4 * Z / 2 ^ 53 < 1" using Z by simp
    then have "4 * (\<bar>y\<bar> + 5) / (10 * 2 ^ 53) * of_int (10 * t) < 1"
      by (simp only: eq)
    then have "4 * (\<bar>y\<bar> + 5) / (10 * 2 ^ 53) < 1 / of_int (10 * t)"
      using t10 by (simp only: pos_less_divide_eq)
    with err have "\<bar>d - (y + 5) / 10\<bar> < 1 / of_int (10 * t)" by simp
    then have e: "d - (y + 5) / 10 < 1 / of_int (10 * t)" "- (d - (y + 5) / 10) < 1 / of_int (10 * t)"
      by (simp_all only: abs_less_iff)
    define x h :: rat where "x = (y + 5) / 10" and "h = 1 / of_int (10 * t)"
    from lo hi e have "of_int n < d" "d < of_int n + 1"
      unfolding x_def [symmetric] h_def [symmetric] by linarith+
    then show ?thesis by (simp add: floor_unique)
  qed
  with d show ?thesis by (simp add: n_def N_def)
qed

lemma percent_spec_div:
  "t \<noteq> 0 \<Longrightarrow> percent_spec c t = of_int ((100000 * c + 5 * t) div (10 * t)) / 100"
proof -
  assume t: "t \<noteq> 0"
  have "(rat_of_int c / rat_of_int t * 100 * 1000 + 5) / 10
          = rat_of_int (100000 * c + 5 * t) / rat_of_int (10 * t)"
    using t by (simp add: field_simps)
  then have "\<lfloor>(rat_of_int c / rat_of_int t * 100 * 1000 + 5) / 10\<rfloor>
          = (100000 * c + 5 * t) div (10 * t)"
    by (simp only: floor_divide_of_int_eq)
  then show ?thesis using t by (simp add: percent_spec_def)
qed

lemma percent_div:
  assumes "0 < t" and "100000 * \<bar>c\<bar> + 5 * t < 2 ^ 51"
  shows "percent c t = js_round (of_int ((100000 * c + 5 * t) div (10 * t)) / 100)"
  using assms by (simp add: percent_def Let_def percent_floor js_divide_def [of "of_int k" for k])

text \<open>
  C1 (as amended). For every pair of integers \<open>covered\<close> and \<open>t\<close>: when the total \<open>t\<close> is
  zero or negative, \<open>percent\<close> returns 100. When the total is positive and
  \<open>100000 * \<bar>covered\<bar> + 5 * t < 2 ^ 51\<close> (as for \<open>0 \<le> covered \<le> t \<le> 2 * 10 ^ 10\<close>),
  it returns the double nearest to what the specification describes, \<open>covered / t * 100\<close>
  scaled by 1000, plus 5, floor-divided by 10 and divided by 100; this is the quotient
  \<open>100 * covered / t\<close> rounded half up to two decimal places. In particular
  \<open>percent 0 0\<close> is 100, \<open>percent 1 3\<close> is the double 33.33, \<open>percent 2 3\<close> is the double
  66.67 and \<open>percent 0 5\<close> is 0.
\<close>

theorem percent_value:
  "(t \<le> 0 \<longrightarrow> percent covered t = 100)
   \<and> (0 < t \<and> 100000 * \<bar>covered\<bar> + 5 * t < 2 ^ 51 \<longrightarrow>
        percent covered t = js_round (percent_spec covered t)
        \<and> percent_spec covered t
            = rat_of_int \<lfloor>10000 * rat_of_int covered / rat_of_int t + 1 / 2\<rfloor> / 100)
   \<and> percent 0 0 = 100 \<and> percent 1 3 = js_round (3333 / 100)
   \<and> percent 2 3 = js_round (6667 / 100) \<and> percent 0 5 = 0"
proof -
  have a: "t \<le> 0 \<longrightarrow> percent covered t = 100"
    by (simp add: percent_def)
  have b: "percent covered t = js_round (percent_spec covered t)"
    if "0 < t" "100000 * \<bar>covered\<bar> + 5 * t < 2 ^ 51"
    using that by (simp add: percent_div percent_spec_div)
  have c: "percent_spec covered t
            = rat_of_int \<lfloor>10000 * rat_of_int covered / rat_of_int t + 1 / 2\<rfloor> / 100"
    if "0 < t"
    using that by (simp add: percent_spec_def add_divide_distrib)
  have d: "percent 0 0 = 100" by (simp add: percent_def)
  have e: "percent 1 3 = js_round (3333 / 100)" by (simp add: percent_div)
  have f: "percent 2 3 = js_round (6667 / 100)" by (simp add: percent_div)
  have g: "percent 0 5 = 0" by (simp add: percent_div)
  from a b c d e f g show ?thesis by blast
qed

theorem percent_value_witness:
  "(0::int) < 3 \<and> 100000 * \<bar>1\<bar> + 5 * 3 < (2::int) ^ 51
   \<and> percent 1 3 = js_round (percent_spec 1 3)
   \<and> percent_spec 1 3 = 3333 / 100
   \<and> (- 1::int) \<le> 0 \<and> percent 1 (- 1) = 100"
proof -
  have s: "percent_spec 1 3 = 3333 / 100" by (simp add: percent_spec_div)
  have h: "(0::int) < 3 \<and> 100000 * \<bar>1\<bar> + 5 * 3 < (2::int) ^ 51" by simp
  have h': "(- 1::int) \<le> 0" by simp
  from percent_value [where covered = 1 and t = 3] h
  have a: "percent 1 3 = js_round (percent_spec 1 3)" by blast
  from percent_value [where covered = 1 and t = "- 1"] h'
  have b: "percent 1 (- 1) = 100" by blast
  from a b h h' s show ?thesis by blast
qed

text \<open>
  The bound on the magnitudes is needed: at \<open>covered = 600005000006\<close> and
  \<open>t = 700000000007\<close> the product \<^verbatim>\<open>1000 * 100 * covered\<close> is not a double, and the
  call returns 85.72 where the exact computation gives 85.71.
\<close>

lemma percent_large_counters:
  "percent 600005000006 700000000007 = js_round (8572 / 100)
   \<and> percent_spec 600005000006 700000000007 = 8571 / 100
   \<and> js_round (8572 / 100) \<noteq> js_round (8571 / 100)"
  by code_simp

text \<open>
  C1 as stated fails for a negative total: for \<open>covered = 1\<close> and the total \<open>-1\<close> the
  guard \<^verbatim>\<open>total > 0\<close> sends the code to 100, where the stated formula gives \<open>-100\<close>.
\<close>

theorem percent_negative_total:
  "percent 1 (- 1) = 100 \<and> percent_spec 1 (- 1) = - 100
   \<and> percent 1 (- 1) \<noteq> percent_spec 1 (- 1)"
  by code_simp

subsection \<open>mergeSummaryObjects\<close>

text \<open>
  C2 (as amended). Called with no argument, \<open>mergeSummaryObjects\<close> returns the summary
  whose four categories have total 0, covered 0 and the percentage 100: the final loop
  recomputes \<open>pct\<close> as \<open>percent 0 0\<close> in every category.
\<close>

theorem mergeSummaryObjects_no_arguments:
  "mergeSummaryObjects [] =
     \<lparr> lines = \<lparr> total_n = 0, covered_n = 0, pct = Pct 100 \<rparr>,
       statements = \<lparr> total_n = 0, covered_n = 0, pct = Pct 100 \<rparr>,
       functions_m = \<lparr> total_n = 0, covered_n = 0, pct = Pct 100 \<rparr>,
       branches = \<lparr> total_n = 0, covered_n = 0, pct = Pct 100 \<rparr> \<rparr>"
  by (simp add: mergeSummaryObjects_def blankSummary_def summary_keys_def percent_def)

text \<open>
  C2 as stated fails: after a call with no argument no category has the percentage
  \<^verbatim>\<open>'Unknown'\<close>.
\<close>

theorem mergeSummaryObjects_no_arguments_not_Unknown:
  "pct (lines (mergeSummaryObjects [])) \<noteq> Unknown
   \<and> pct (statements (mergeSummaryObjects [])) \<noteq> Unknown
   \<and> pct (functions_m (mergeSummaryObjects [])) \<noteq> Unknown
   \<and> pct (branches (mergeSummaryObjects [])) \<noteq> Unknown"
  by (simp add: mergeSummaryObjects_def blankSummary_def summary_keys_def percent_def)

lemma increment_blank_argument: "blank_argument x \<Longrightarrow> increment x r = r"
  by (cases x) (simp_all add: increment_def blank_argument_def summary_keys_def)

lemma fold_increment_blank: "list_all blank_argument xs \<Longrightarrow> fold increment xs r = r"
  by (induction xs arbitrary: r) (simp_all add: increment_blank_argument)

lemma increment_blankSummary:
  "increment (Some s) blankSummary =
     \<lparr> lines = \<lparr> total_n = total_n (lines s), covered_n = covered_n (lines s), pct = Unknown \<rparr>,
       statements = \<lparr> total_n = total_n (statements s), covered_n = covered_n (statements s), pct = Unknown \<rparr>,
       functions_m = \<lparr> total_n = total_n (functions_m s), covered_n = covered_n (functions_m s), pct = Unknown \<rparr>,
       branches = \<lparr> total_n = total_n (branches s), covered_n = covered_n (branches s), pct = Unknown \<rparr> \<rparr>"
  by (simp add: increment_def blankSummary_def summary_keys_def)

lemma merge_with_blanks:
  assumes "list_all blank_argument pre" and "list_all blank_argument post"
  shows "mergeSummaryObjects (pre @ Some s # post) =
           \<lparr> lines = recompute_pct (lines s), statements = recompute_pct (statements s),
             functions_m = recompute_pct (functions_m s), branches = recompute_pct (branches s) \<rparr>"
proof -
  have "fold increment (pre @ Some s # post) blankSummary = increment (Some s) blankSummary"
    using assms by (simp add: fold_increment_blank)
  then show ?thesis
    by (simp add: mergeSummaryObjects_def increment_blankSummary summary_keys_def recompute_pct_def)
qed

text \<open>
  C7 (as amended). Let a summary \<open>s\<close> be merged with any number of blank arguments, before
  and after it: absent arguments, blank summaries, or merges of blank summaries (which
  covers every grouping of the fold). The result has the total and covered counters of
  \<open>s\<close> in all four categories, and each \<open>pct\<close> is recomputed by \<open>percent\<close> from them. So
  the merge reproduces \<open>s\<close> unchanged exactly when the \<open>pct\<close> fields of \<open>s\<close> are already
  the computed percentages, which holds for every summary that \<open>mergeSummaryObjects\<close>
  returns.
\<close>

theorem blank_summary_identity:
  assumes "list_all blank_argument pre" and "list_all blank_argument post"
  shows "mergeSummaryObjects (pre @ Some s # post) =
           \<lparr> lines = recompute_pct (lines s), statements = recompute_pct (statements s),
             functions_m = recompute_pct (functions_m s), branches = recompute_pct (branches s) \<rparr>
         \<and> (mergeSummaryObjects (pre @ Some s # post) = s \<longleftrightarrow> pct_computed s)
         \<and> blank_argument None \<and> blank_argument (Some blankSummary)
         \<and> blank_argument (Some (mergeSummaryObjects [Some blankSummary, Some blankSummary]))
         \<and> pct_computed (mergeSummaryObjects args)"
proof -
  note m = merge_with_blanks [OF assms, of s]
  have e: "(\<lparr> lines = recompute_pct (lines s), statements = recompute_pct (statements s),
             functions_m = recompute_pct (functions_m s), branches = recompute_pct (branches s) \<rparr> = s)
           \<longleftrightarrow> pct_computed s"
    by (cases s, cases "lines s", cases "statements s", cases "functions_m s", cases "branches s")
       (auto simp add: pct_computed_def summary_keys_def recompute_pct_def)
  have b: "blank_argument None" "blank_argument (Some blankSummary)"
    by (simp_all add: blank_argument_def blankSummary_def summary_keys_def)
  have b2: "blank_argument (Some (mergeSummaryObjects [Some blankSummary, Some blankSummary]))"
    by (simp add: blank_argument_def mergeSummaryObjects_def increment_def blankSummary_def summary_keys_def)
  have c: "pct_computed (mergeSummaryObjects args)"
    by (simp add: pct_computed_def mergeSummaryObjects_def summary_keys_def Let_def)
  from m e b b2 c show ?thesis by simp
qed

theorem blank_summary_identity_witness:
  "list_all blank_argument [Some blankSummary, None]
   \<and> list_all blank_argument [Some (mergeSummaryObjects [Some blankSummary, Some blankSummary])]
   \<and> pct_computed summary_example
   \<and> mergeSummaryObjects
        ([Some blankSummary, None] @ Some summary_example
           # [Some (mergeSummaryObjects [Some blankSummary, Some blankSummary])]) = summary_example"
proof -
  have h1: "list_all blank_argument [Some blankSummary, None]"
    by (simp add: blank_argument_def blankSummary_def summary_keys_def)
  have h2: "list_all blank_argument [Some (mergeSummaryObjects [Some blankSummary, Some blankSummary])]"
    by (simp add: blank_argument_def mergeSummaryObjects_def increment_def blankSummary_def summary_keys_def)
  have h3: "pct_computed summary_example"
  proof -
    have p0: "percent 0 0 = 100" by (simp add: percent_def)
    show ?thesis
      by (simp add: pct_computed_def summary_example_def summary_keys_def percent_div p0)
  qed
  from blank_summary_identity [OF h1 h2, of summary_example] h1 h2 h3 show ?thesis by blast
qed

text \<open>
  C7 as stated fails: merging a blank summary with a blank summary does not reproduce it,
  since the percentage \<^verbatim>\<open>'Unknown'\<close> becomes 100.
\<close>

theorem blank_summary_not_identity:
  "mergeSummaryObjects [Some blankSummary, Some blankSummary] \<noteq> blankSummary
   \<and> pct (lines (mergeSummaryObjects [Some blankSummary, Some blankSummary])) = Pct 100
   \<and> pct (lines blankSummary) = Unknown"
  by (simp add: mergeSummaryObjects_def increment_def blankSummary_def summary_keys_def percent_def)

subsection \<open>computeBranchTotals\<close>

lemma branch_fold:
  "fold (\<lambda>(key, branches) (tot, cov).
            (tot + int (length branches), cov + int (length (filter js_gt0 branches)))) stats (t, c)
   = (t + int (length (concat (map snd stats))),
      c + int (length (filter js_gt0 (concat (map snd stats)))))"
  by (induction stats arbitrary: t c) auto

lemma computeBranchTotals_eq:
  "computeBranchTotals fc =
     \<lparr> total_n = int (length (concat (map snd (b_counts fc)))),
       covered_n = int (length (filter js_gt0 (concat (map snd (b_counts fc))))),
       pct = Pct (percent (int (length (filter js_gt0 (concat (map snd (b_counts fc))))))
                          (int (length (concat (map snd (b_counts fc)))))) \<rparr>"
  by (simp add: computeBranchTotals_def branch_fold Let_def)

text \<open>
  C6. For every file coverage object, \<open>computeBranchTotals\<close> returns as total the sum of
  the lengths of the arm sequences over all branch ids, as covered the number of arms, over
  all sequences, whose count is greater than 0, and as \<open>pct\<close> the value of \<open>percent\<close> at
  these two numbers. For \<^verbatim>\<open>b = {br1: [1, 0, 2]}\<close> it returns total 3, covered 2 and
  the percentage 66.67.
\<close>

theorem computeBranchTotals_value:
  "total_n (computeBranchTotals fc) = (\<Sum>arms \<leftarrow> map snd (b_counts fc). int (length arms))
   \<and> covered_n (computeBranchTotals fc)
       = int (length (filter js_gt0 (concat (map snd (b_counts fc)))))
   \<and> pct (computeBranchTotals fc)
       = Pct (percent (covered_n (computeBranchTotals fc)) (total_n (computeBranchTotals fc)))
   \<and> js_gt0 (Num n) = (0 < n) \<and> \<not> js_gt0 NaN \<and> \<not> js_gt0 Null
   \<and> computeBranchTotals (fc\<lparr> b_counts := [(''br1'', [Num 1, Num 0, Num 2])] \<rparr>)
       = \<lparr> total_n = 3, covered_n = 2, pct = Pct (js_round (6667 / 100)) \<rparr>"
proof -
  have s: "(\<Sum>arms \<leftarrow> xs. int (length arms)) = int (length (concat xs))"
    for xs :: "jsnum list list"
    by (induction xs) simp_all
  have g: "js_gt0 (Num m) = (0 < m)" "\<not> js_gt0 NaN" "\<not> js_gt0 Null" for m
    by (simp_all add: js_gt0_def js_lt_def)
  have e: "computeBranchTotals (fc\<lparr> b_counts := [(''br1'', [Num 1, Num 0, Num 2])] \<rparr>)
       = \<lparr> total_n = 3, covered_n = 2, pct = Pct (js_round (6667 / 100)) \<rparr>"
    by (simp add: computeBranchTotals_eq g percent_div)
  have t: "total_n (computeBranchTotals fc)
             = (\<Sum>arms \<leftarrow> map snd (b_counts fc). int (length arms))"
    by (simp only: s computeBranchTotals_eq metrics.simps)
  have c: "covered_n (computeBranchTotals fc)
             = int (length (filter js_gt0 (concat (map snd (b_counts fc)))))"
    by (simp add: computeBranchTotals_eq)
  have p: "pct (computeBranchTotals fc)
       = Pct (percent (covered_n (computeBranchTotals fc)) (total_n (computeBranchTotals fc)))"
    by (simp add: computeBranchTotals_eq)
  from t c p g e show ?thesis by blast
qed

subsection \<open>addDerivedInfoForFile\<close>

text \<open>
  The state of the loop after all statements, line by line, when every statement id has an
  entry in \<^verbatim>\<open>statementMap\<close> and every counter is an integer: no entry for a line on
  which neither the initial map nor a statement puts a count, and otherwise the greatest of
  these counts.
\<close>

lemma addDerivedInfoForFile_loop_result:
  assumes "\<forall>(st, c) \<in> set stats. map_of M st \<noteq> None \<and> is_int c"
    and "\<forall>line v. map_of lm line = Some v \<longrightarrow> is_int v"
  shows "fst (addDerivedInfoForFile_loop M stats lm) = Inr ()
       \<and> (\<forall>line. let S = {n. map_of lm line = Some (Num n)}
                        \<union> {n. \<exists>st e. (st, Num n) \<in> set stats \<and> map_of M st = Some e \<and> loc_line (start_loc e) = line}
            in (S = {} \<longrightarrow> map_of (snd (addDerivedInfoForFile_loop M stats lm)) line = None)
             \<and> (S \<noteq> {} \<longrightarrow> (\<exists>m\<in>S. map_of (snd (addDerivedInfoForFile_loop M stats lm)) line = Some (Num m)
                    \<and> (\<forall>x\<in>S. x \<le> m))))"
  using assms
proof (induction stats arbitrary: lm)
  case Nil
  show ?case
  proof (intro conjI allI)
    show "fst (addDerivedInfoForFile_loop M [] lm) = Inr ()" by simp
  next
    fix line
    show "let S = {n. map_of lm line = Some (Num n)}
                        \<union> {n. \<exists>st e. (st, Num n) \<in> set [] \<and> map_of M st = Some e \<and> loc_line (start_loc e) = line}
            in (S = {} \<longrightarrow> map_of (snd (addDerivedInfoForFile_loop M [] lm)) line = None)
             \<and> (S \<noteq> {} \<longrightarrow> (\<exists>m\<in>S. map_of (snd (addDerivedInfoForFile_loop M [] lm)) line = Some (Num m)
                    \<and> (\<forall>x\<in>S. x \<le> m)))"
    proof (cases "map_of lm line")
      case None
      then show ?thesis by simp
    next
      case (Some v)
      with Nil.prems(2) have "is_int v" by blast
      then obtain n where "v = Num n" by (cases v) simp_all
      with Some show ?thesis by simp
    qed
  qed
next
  case (Cons p rest)
  obtain st c where p: "p = (st, c)" by (cases p)
  from Cons.prems(1) p obtain e n where e: "map_of M st = Some e" and c: "c = Num n"
    by (cases c) auto
  define ln where "ln = loc_line (start_loc e)"
  define lm1 where "lm1 = (if (case map_of lm ln of None \<Rightarrow> True | Some p \<Rightarrow> js_lt p c)
                 then AList.update ln c lm else lm)"
  have step: "addDerivedInfoForFile_loop M (p # rest) lm = addDerivedInfoForFile_loop M rest lm1"
    by (simp add: p e lm1_def ln_def Let_def)
  have inv1: "\<forall>line v. map_of lm1 line = Some v \<longrightarrow> is_int v"
    using Cons.prems(2) c by (auto simp add: lm1_def update_conv' split: if_splits)
  have rest_ok: "\<forall>(st, c) \<in> set rest. map_of M st \<noteq> None \<and> is_int c"
    using Cons.prems(1) by simp
  note IH = Cons.IH [OF rest_ok inv1]
  show ?case
  proof (intro conjI allI)
    show "fst (addDerivedInfoForFile_loop M (p # rest) lm) = Inr ()"
      using IH step by simp
  next
    fix line
    define R where "R = {n. \<exists>st e. (st, Num n) \<in> set rest \<and> map_of M st = Some e \<and> loc_line (start_loc e) = line}"
    define L where "L = {n. map_of lm line = Some (Num n)}"
    define L1 where "L1 = {n. map_of lm1 line = Some (Num n)}"
    let ?S = "{n. map_of lm line = Some (Num n)}
                \<union> {n. \<exists>st e. (st, Num n) \<in> set (p # rest) \<and> map_of M st = Some e \<and> loc_line (start_loc e) = line}"
    let ?res = "map_of (snd (addDerivedInfoForFile_loop M rest lm1)) line"
    from IH have ih: "(L1 \<union> R = {} \<longrightarrow> ?res = None)
             \<and> (L1 \<union> R \<noteq> {} \<longrightarrow> (\<exists>m\<in>L1 \<union> R. ?res = Some (Num m) \<and> (\<forall>x\<in>L1 \<union> R. x \<le> m)))"
      by (simp add: Let_def L1_def R_def)
    have "{n. \<exists>st e. (st, Num n) \<in> set (p # rest) \<and> map_of M st = Some e \<and> loc_line (start_loc e) = line}
            = (if ln = line then {n} else {}) \<union> R"
      using p c e by (auto simp add: ln_def R_def)
    then have S_eq: "?S = L \<union> (if ln = line then {n} else {}) \<union> R"
      by (simp add: L_def Un_assoc)
    have "(L \<union> (if ln = line then {n} else {}) \<union> R = {} \<longrightarrow> ?res = None)
             \<and> (L \<union> (if ln = line then {n} else {}) \<union> R \<noteq> {} \<longrightarrow> (\<exists>m\<in>L \<union> (if ln = line then {n} else {}) \<union> R. ?res = Some (Num m) \<and> (\<forall>x\<in>L \<union> (if ln = line then {n} else {}) \<union> R. x \<le> m)))"
    proof (cases "ln = line")
      case False
      then have "map_of lm1 line = map_of lm line"
        by (simp add: lm1_def update_conv')
      then have "L1 = L" by (simp add: L1_def L_def)
      with ih False show ?thesis by simp
    next
      case True
      show ?thesis
      proof (cases "map_of lm ln")
        case None
        then have "map_of lm1 line = Some (Num n)"
          using True c by (simp add: lm1_def update_conv')
        then have "L1 = {n}" by (auto simp add: L1_def)
        moreover from None True have "L = {}" by (simp add: L_def)
        ultimately show ?thesis using ih True by simp
      next
        case (Some v)
        with Cons.prems(2) have "is_int v" by blast
        then obtain q where v: "v = Num q" by (cases v) simp_all
        have l: "L = {q}" using Some v True by (auto simp add: L_def)
        show ?thesis
        proof (cases "q < n")
          case qn: True
          then have "map_of lm1 line = Some (Num n)"
            using Some v c True by (simp add: lm1_def update_conv' js_lt_def)
          then have l1: "L1 = {n}" by (auto simp add: L1_def)
          from ih l1 obtain m where m: "m \<in> {n} \<union> R" "?res = Some (Num m)" "\<forall>x\<in>{n} \<union> R. x \<le> m"
            by blast
          then have "m \<in> {q} \<union> {n} \<union> R" "\<forall>x\<in>{q} \<union> {n} \<union> R. x \<le> m" using qn by auto
          with m(2) l True show ?thesis by auto
        next
          case qn: False
          then have "map_of lm1 line = Some (Num q)"
            using Some v c True by (simp add: lm1_def js_lt_def)
          then have l1: "L1 = {q}" by (auto simp add: L1_def)
          from ih l1 obtain m where m: "m \<in> {q} \<union> R" "?res = Some (Num m)" "\<forall>x\<in>{q} \<union> R. x \<le> m"
            by blast
          then have "m \<in> {q} \<union> {n} \<union> R" "\<forall>x\<in>{q} \<union> {n} \<union> R. x \<le> m" using qn by auto
          with m(2) l True show ?thesis by auto
        qed
      qed
    qed
    with S_eq have "(?S = {} \<longrightarrow> ?res = None)
             \<and> (?S \<noteq> {} \<longrightarrow> (\<exists>m\<in>?S. ?res = Some (Num m) \<and> (\<forall>x\<in>?S. x \<le> m)))"
      by simp
    then show "let S = ?S in (S = {} \<longrightarrow> map_of (snd (addDerivedInfoForFile_loop M (p # rest) lm)) line = None)
             \<and> (S \<noteq> {} \<longrightarrow> (\<exists>m\<in>S. map_of (snd (addDerivedInfoForFile_loop M (p # rest) lm)) line = Some (Num m)
                    \<and> (\<forall>x\<in>S. x \<le> m)))"
      using step by (simp add: Let_def)
  qed
qed

text \<open>
  C4. Let a file coverage object have no \<^verbatim>\<open>l\<close> field, integer statement counters, and
  the same statement ids in \<^verbatim>\<open>s\<close> as in \<^verbatim>\<open>statementMap\<close> (the invariant of the data
  model; both are objects, so their keys are distinct). Then \<open>addDerivedInfoForFile\<close>
  returns normally and changes only \<^verbatim>\<open>l\<close>; the keys of the new \<^verbatim>\<open>l\<close> are exactly the
  start lines of the statements in \<^verbatim>\<open>statementMap\<close>; and for each such line,
  \<^verbatim>\<open>l[line]\<close> is the maximum of \<^verbatim>\<open>s[id]\<close> over the statement ids whose entry starts
  on that line.
\<close>

theorem addDerivedInfoForFile_max:
  assumes "l_counts fc = None"
    and "distinct (map fst (statementMap fc))"
    and "distinct (map fst (s_counts fc))"
    and "set (map fst (s_counts fc)) = set (map fst (statementMap fc))"
    and "list_all (\<lambda>(st, c). is_int c) (s_counts fc)"
  shows "\<exists>lineMap.
           addDerivedInfoForFile fc = (Inr (), fc\<lparr> l_counts := Some lineMap \<rparr>)
         \<and> dom (map_of lineMap) = {loc_line (start_loc e) | st e. (st, e) \<in> set (statementMap fc)}
         \<and> (\<forall>line \<in> dom (map_of lineMap).
               map_of lineMap line =
                 Some (Num (Max {n. \<exists>st e. (st, e) \<in> set (statementMap fc)
                                      \<and> loc_line (start_loc e) = line
                                      \<and> map_of (s_counts fc) st = Some (Num n)})))"
proof -
  let ?M = "statementMap fc"
  let ?s = "s_counts fc"
  define lineMap where "lineMap = snd (addDerivedInfoForFile_loop ?M ?s [])"
  let ?T = "\<lambda>line. {n. \<exists>st e. (st, e) \<in> set ?M \<and> loc_line (start_loc e) = line
                          \<and> map_of ?s st = Some (Num n)}"
  have ok: "\<forall>(st, c) \<in> set ?s. map_of ?M st \<noteq> None \<and> is_int c"
  proof (clarify, intro conjI)
    fix st c assume m: "(st, c) \<in> set ?s"
    then have "st \<in> set (map fst ?M)" using assms(4) by force
    then show "map_of ?M st \<noteq> None" by (simp add: map_of_eq_None_iff)
    from m assms(5) show "is_int c" by (auto simp add: list_all_iff)
  qed
  have emp: "\<forall>line v. map_of ([] :: (int \<times> jsnum) list) line = Some v \<longrightarrow> is_int v" by simp
  note lr = addDerivedInfoForFile_loop_result [OF ok emp]
  have S_T: "{n. map_of ([] :: (int \<times> jsnum) list) line = Some (Num n)}
               \<union> {n. \<exists>st e. (st, Num n) \<in> set ?s \<and> map_of ?M st = Some e \<and> loc_line (start_loc e) = line}
             = ?T line" for line
    using assms(2,3) by auto
  have res: "(?T line = {} \<longrightarrow> map_of lineMap line = None)
           \<and> (?T line \<noteq> {} \<longrightarrow> (\<exists>m\<in>?T line. map_of lineMap line = Some (Num m) \<and> (\<forall>x\<in>?T line. x \<le> m)))"
    for line
    using lr [THEN conjunct2, THEN spec, of line] unfolding Let_def S_T lineMap_def by blast
  have fin: "finite (?T line)" for line
  proof -
    have "?T line \<subseteq> (\<lambda>(st, c). case c of Num n \<Rightarrow> n | _ \<Rightarrow> 0) ` set ?s"
    proof
      fix n assume "n \<in> ?T line"
      then obtain st where "map_of ?s st = Some (Num n)" by blast
      then have "(st, Num n) \<in> set ?s" by (rule map_of_SomeD)
      then show "n \<in> (\<lambda>(st, c). case c of Num n \<Rightarrow> n | _ \<Rightarrow> 0) ` set ?s" by force
    qed
    then show ?thesis by (rule finite_subset) simp
  qed
  have a: "addDerivedInfoForFile fc = (Inr (), fc\<lparr> l_counts := Some lineMap \<rparr>)"
    using assms(1) lr [THEN conjunct1]
    by (simp add: addDerivedInfoForFile_def lineMap_def Let_def case_prod_beta)
  have d: "dom (map_of lineMap) = {loc_line (start_loc e) | st e. (st, e) \<in> set ?M}"
  proof (intro set_eqI iffI)
    fix line assume "line \<in> dom (map_of lineMap)"
    then have "?T line \<noteq> {}" using res [of line] by auto
    then show "line \<in> {loc_line (start_loc e) | st e. (st, e) \<in> set ?M}" by blast
  next
    fix line assume "line \<in> {loc_line (start_loc e) | st e. (st, e) \<in> set ?M}"
    then obtain st e where se: "(st, e) \<in> set ?M" "loc_line (start_loc e) = line" by blast
    then have "st \<in> set (map fst ?s)" using assms(4) by force
    then obtain c where c: "(st, c) \<in> set ?s" by auto
    with assms(5) have "is_int c" by (auto simp add: list_all_iff)
    then obtain n where "c = Num n" by (cases c) simp_all
    with c assms(3) have "map_of ?s st = Some (Num n)" by simp
    with se have "n \<in> ?T line" by blast
    then show "line \<in> dom (map_of lineMap)" using res [of line] by auto
  qed
  have m: "\<forall>line \<in> dom (map_of lineMap). map_of lineMap line = Some (Num (Max (?T line)))"
  proof
    fix line assume "line \<in> dom (map_of lineMap)"
    then have "?T line \<noteq> {}" using res [of line] by auto
    with res [of line] obtain m where m: "m \<in> ?T line" "map_of lineMap line = Some (Num m)"
      "\<forall>x\<in>?T line. x \<le> m" by blast
    have "Max (?T line) = m"
      using fin [of line] m(1,3) by (intro Max_eqI) blast+
    with m(2) show "map_of lineMap line = Some (Num (Max (?T line)))" by simp
  qed
  from a d m show ?thesis by blast
qed

theorem addDerivedInfoForFile_max_witness:
  "l_counts file_example = None
   \<and> distinct (map fst (statementMap file_example))
   \<and> distinct (map fst (s_counts file_example))
   \<and> set (map fst (s_counts file_example)) = set (map fst (statementMap file_example))
   \<and> list_all (\<lambda>(st, c). is_int c) (s_counts file_example)
   \<and> addDerivedInfoForFile file_example
       = (Inr (), file_example\<lparr> l_counts := Some [(1, Num 4), (2, Num 0)] \<rparr>)
   \<and> (\<exists>lineMap.
           addDerivedInfoForFile file_example = (Inr (), file_example\<lparr> l_counts := Some lineMap \<rparr>)
         \<and> dom (map_of lineMap) = {loc_line (start_loc e) | st e. (st, e) \<in> set (statementMap file_example)}
         \<and> (\<forall>line \<in> dom (map_of lineMap).
               map_of lineMap line =
                 Some (Num (Max {n. \<exists>st e. (st, e) \<in> set (statementMap file_example)
                                      \<and> loc_line (start_loc e) = line
                                      \<and> map_of (s_counts file_example) st = Some (Num n)}))))"
proof -
  have h1: "l_counts file_example = None" by (simp add: file_example_def)
  have h2: "distinct (map fst (statementMap file_example))" by (simp add: file_example_def)
  have h3: "distinct (map fst (s_counts file_example))" by (simp add: file_example_def)
  have h4: "set (map fst (s_counts file_example)) = set (map fst (statementMap file_example))"
    by (simp add: file_example_def)
  have h5: "list_all (\<lambda>(st, c). is_int c) (s_counts file_example)" by (simp add: file_example_def)
  have v: "addDerivedInfoForFile file_example
       = (Inr (), file_example\<lparr> l_counts := Some [(1, Num 4), (2, Num 0)] \<rparr>)"
    by (simp add: addDerivedInfoForFile_def file_example_def js_lt_def)
  from addDerivedInfoForFile_max [OF h1 h2 h3 h4 h5] h1 h2 h3 h4 h5 v show ?thesis by blast
qed

text \<open>
  C5. When the file coverage object already has an \<^verbatim>\<open>l\<close> field, \<open>addDerivedInfoForFile\<close>
  returns normally and leaves the object as it is, \<^verbatim>\<open>l\<close> and every other field. After
  any call the object has an \<^verbatim>\<open>l\<close> field, so a second call on the same object changes
  nothing.
\<close>

theorem addDerivedInfoForFile_guarded:
  "(l_counts fc \<noteq> None \<longrightarrow> addDerivedInfoForFile fc = (Inr (), fc))
   \<and> l_counts (snd (addDerivedInfoForFile fc)) \<noteq> None
   \<and> addDerivedInfoForFile (snd (addDerivedInfoForFile fc))
       = (Inr (), snd (addDerivedInfoForFile fc))"
  by (auto simp add: addDerivedInfoForFile_def split: option.splits prod.splits)

theorem addDerivedInfoForFile_guarded_witness:
  "l_counts (file_example\<lparr> l_counts := Some [(1, Num 7)] \<rparr>) \<noteq> None
   \<and> addDerivedInfoForFile (file_example\<lparr> l_counts := Some [(1, Num 7)] \<rparr>)
       = (Inr (), file_example\<lparr> l_counts := Some [(1, Num 7)] \<rparr>)
   \<and> addDerivedInfoForFile (snd (addDerivedInfoForFile file_example))
       = (Inr (), file_example\<lparr> l_counts := Some [(1, Num 4), (2, Num 0)] \<rparr>)"
proof -
  have h: "l_counts (file_example\<lparr> l_counts := Some [(1, Num 7)] \<rparr>) \<noteq> None" by simp
  have v: "snd (addDerivedInfoForFile file_example)
             = file_example\<lparr> l_counts := Some [(1, Num 4), (2, Num 0)] \<rparr>"
    by (simp add: addDerivedInfoForFile_def file_example_def js_lt_def)
  from addDerivedInfoForFile_guarded [of "file_example\<lparr> l_counts := Some [(1, Num 7)] \<rparr>"]
       addDerivedInfoForFile_guarded [of file_example] h v
  show ?thesis by simp
qed

subsection \<open>summarizeFileCoverage\<close>

text \<open>
  C10. \<open>summarizeFileCoverage\<close> changes its argument: for every file coverage object
  without an \<^verbatim>\<open>l\<close> field, the object has an \<^verbatim>\<open>l\<close> field after the call, namely the
  line map that the loop of \<open>addDerivedInfoForFile\<close> derives from \<^verbatim>\<open>statementMap\<close> and
  \<^verbatim>\<open>s\<close>, and no other field of the object is changed.
\<close>

theorem summarizeFileCoverage_frame:
  assumes "l_counts fc = None"
  shows "snd (summarizeFileCoverage fc)
           = fc\<lparr> l_counts := Some (snd (addDerivedInfoForFile_loop (statementMap fc) (s_counts fc) [])) \<rparr>
         \<and> l_counts (snd (summarizeFileCoverage fc)) \<noteq> None
         \<and> statementMap (snd (summarizeFileCoverage fc)) = statementMap fc
         \<and> s_counts (snd (summarizeFileCoverage fc)) = s_counts fc
         \<and> fnMap (snd (summarizeFileCoverage fc)) = fnMap fc
         \<and> f_counts (snd (summarizeFileCoverage fc)) = f_counts fc
         \<and> b_counts (snd (summarizeFileCoverage fc)) = b_counts fc
         \<and> snd (summarizeFileCoverage fc) = snd (addDerivedInfoForFile fc)"
  using assms
  by (auto simp add: summarizeFileCoverage_def addDerivedInfoForFile_def Let_def
           split: option.splits prod.splits sum.splits)

theorem summarizeFileCoverage_frame_witness:
  "l_counts file_example = None
   \<and> snd (summarizeFileCoverage file_example)
       = file_example\<lparr> l_counts := Some [(1, Num 4), (2, Num 0)] \<rparr>
   \<and> l_counts (snd (summarizeFileCoverage file_example)) \<noteq> None
   \<and> s_counts (snd (summarizeFileCoverage file_example)) = s_counts file_example"
proof -
  have h: "l_counts file_example = None" by (simp add: file_example_def)
  have v: "snd (addDerivedInfoForFile_loop (statementMap file_example) (s_counts file_example) [])
             = [(1, Num 4), (2, Num 0)]"
    by (simp add: file_example_def js_lt_def)
  from summarizeFileCoverage_frame [OF h] h v show ?thesis by simp
qed

subsection \<open>mergeFileCoverage\<close>

lemma merge_counts_map_of:
  assumes "distinct (map fst s2)"
  shows "map_of (merge_counts r s2) k =
           (case map_of s2 k of
              None \<Rightarrow> map_of r k
            | Some v \<Rightarrow> Some (js_plus (map_of r k) (Some v)))"
  using assms
proof (induction s2 arbitrary: r)
  case Nil
  then show ?case by (simp add: merge_counts_def)
next
  case (Cons p rest)
  obtain k0 v0 where p: "p = (k0, v0)" by (cases p)
  let ?r1 = "AList.update k0 (js_plus (map_of r k0) (Some v0)) r"
  have step: "merge_counts r (p # rest) = merge_counts ?r1 rest"
    by (simp add: merge_counts_def p)
  from Cons.prems p have d: "distinct (map fst rest)" and n: "k0 \<notin> fst ` set rest" by auto
  from n have none: "map_of rest k0 = None" by (simp add: map_of_eq_None_iff)
  show ?case
  proof (cases "k = k0")
    case True
    with Cons.IH [OF d, of ?r1] none step p show ?thesis
      by (simp add: update_conv' split: option.splits)
  next
    case False
    with Cons.IH [OF d, of ?r1] step p show ?thesis
      by (simp add: update_conv' split: option.splits)
  qed
qed

lemma merge_counts_keys:
  "set (map fst s2) \<subseteq> set (map fst r) \<Longrightarrow> map fst (merge_counts r s2) = map fst r"
proof (induction s2 arbitrary: r)
  case Nil
  then show ?case by (simp add: merge_counts_def)
next
  case (Cons p rest)
  obtain k0 v0 where p: "p = (k0, v0)" by (cases p)
  let ?r1 = "AList.update k0 (js_plus (map_of r k0) (Some v0)) r"
  have step: "merge_counts r (p # rest) = merge_counts ?r1 rest"
    by (simp add: merge_counts_def p)
  from Cons.prems p have k: "map fst ?r1 = map fst r" by (simp add: update_keys)
  with Cons.prems have "set (map fst rest) \<subseteq> set (map fst ?r1)" by simp
  from Cons.IH [OF this] k step show ?case by simp
qed

lemma merge_arrays_fold:
  "n \<le> length xs \<Longrightarrow>
   fold (\<lambda>i arr. arr[i := js_plus (array_get arr i) (array_get ys i)]) [0..<n] xs
     = map (\<lambda>i. if i < n then js_plus (Some (xs ! i)) (array_get ys i) else xs ! i) [0..<length xs]"
proof (induction n)
  case 0
  then show ?case by (simp add: map_nth)
next
  case (Suc n)
  then have IH: "fold (\<lambda>i arr. arr[i := js_plus (array_get arr i) (array_get ys i)]) [0..<n] xs
     = map (\<lambda>i. if i < n then js_plus (Some (xs ! i)) (array_get ys i) else xs ! i) [0..<length xs]"
    and n: "n < length xs" by simp_all
  define A where "A = map (\<lambda>i. if i < n then js_plus (Some (xs ! i)) (array_get ys i) else xs ! i) [0..<length xs]"
  have len: "length A = length xs" by (simp add: A_def)
  have An: "A ! n = xs ! n" using n by (simp add: A_def)
  have g: "array_get A n = Some (xs ! n)" using n len An by (simp add: array_get_def)
  have "fold (\<lambda>i arr. arr[i := js_plus (array_get arr i) (array_get ys i)]) [0..<Suc n] xs
          = A[n := js_plus (Some (xs ! n)) (array_get ys n)]"
    using IH g by (simp add: A_def)
  also have "\<dots> = map (\<lambda>i. if i < Suc n then js_plus (Some (xs ! i)) (array_get ys i) else xs ! i) [0..<length xs]"
  proof (rule nth_equalityI)
    show "length (A[n := js_plus (Some (xs ! n)) (array_get ys n)])
            = length (map (\<lambda>i. if i < Suc n then js_plus (Some (xs ! i)) (array_get ys i) else xs ! i) [0..<length xs])"
      by (simp add: len)
  next
    fix i assume "i < length (A[n := js_plus (Some (xs ! n)) (array_get ys n)])"
    then have i: "i < length xs" by (simp add: len)
    show "A[n := js_plus (Some (xs ! n)) (array_get ys n)] ! i
            = map (\<lambda>i. if i < Suc n then js_plus (Some (xs ! i)) (array_get ys i) else xs ! i) [0..<length xs] ! i"
    proof (cases "i = n")
      case True
      then show ?thesis using i len by simp
    next
      case False
      then have "A[n := js_plus (Some (xs ! n)) (array_get ys n)] ! i = A ! i" by simp
      also have "\<dots> = (if i < n then js_plus (Some (xs ! i)) (array_get ys i) else xs ! i)"
        using i by (simp add: A_def)
      finally show ?thesis using i False by (simp add: less_Suc_eq)
    qed
  qed
  finally show ?case .
qed

lemma merge_arrays_eq:
  "merge_arrays xs ys = map (\<lambda>i. js_plus (Some (xs ! i)) (array_get ys i)) [0..<length xs]"
  by (simp add: merge_arrays_def merge_arrays_fold)

lemma merge_arrays_map2:
  "length xs = length ys \<Longrightarrow> merge_arrays xs ys = map2 (\<lambda>x y. js_plus (Some x) (Some y)) xs ys"
  by (auto simp add: merge_arrays_eq array_get_def intro!: nth_equalityI)

lemma merge_branches_result:
  assumes "distinct (map fst b2)" and "set (map fst b2) \<subseteq> set (map fst r)"
  shows "\<exists>r'. merge_branches r b2 = Inr r' \<and> map fst r' = map fst r
           \<and> (\<forall>k. map_of r' k =
                 (case map_of b2 k of
                    None \<Rightarrow> map_of r k
                  | Some ys \<Rightarrow> map_option (\<lambda>xs. merge_arrays xs ys) (map_of r k)))"
  using assms
proof (induction b2 arbitrary: r)
  case Nil
  then show ?case by simp
next
  case (Cons p rest)
  obtain k0 ys0 where p: "p = (k0, ys0)" by (cases p)
  from Cons.prems p have "k0 \<in> fst ` set r" by auto
  then obtain xs0 where xs0: "map_of r k0 = Some xs0"
    by (cases "map_of r k0") (auto simp add: map_of_eq_None_iff)
  let ?r1 = "AList.update k0 (merge_arrays xs0 ys0) r"
  have step: "merge_branches r (p # rest) = merge_branches ?r1 rest"
    by (simp add: p xs0)
  from Cons.prems p have d: "distinct (map fst rest)" and n: "k0 \<notin> fst ` set rest" by auto
  from n have none: "map_of rest k0 = None" by (simp add: map_of_eq_None_iff)
  from \<open>k0 \<in> fst ` set r\<close> have k: "map fst ?r1 = map fst r" by (simp add: update_keys)
  with Cons.prems have "set (map fst rest) \<subseteq> set (map fst ?r1)" by simp
  from Cons.IH [OF d this] obtain r' where r': "merge_branches ?r1 rest = Inr r'"
    "map fst r' = map fst ?r1"
    "\<forall>k. map_of r' k = (case map_of rest k of None \<Rightarrow> map_of ?r1 k
                  | Some ys \<Rightarrow> map_option (\<lambda>xs. merge_arrays xs ys) (map_of ?r1 k))"
    by blast
  have "map_of r' k = (case map_of (p # rest) k of None \<Rightarrow> map_of r k
                  | Some ys \<Rightarrow> map_option (\<lambda>xs. merge_arrays xs ys) (map_of r k))" for k
  proof (cases "k = k0")
    case True
    with r'(3) none xs0 p show ?thesis by (simp add: update_conv' split: option.splits)
  next
    case False
    with r'(3) p show ?thesis by (simp add: update_conv' split: option.splits)
  qed
  with r'(1,2) k step show ?case by simp
qed


lemma json_counts_int: "list_all (\<lambda>(k, v). is_int v) xs \<Longrightarrow> json_counts xs = xs"
proof (induction xs)
  case Nil
  then show ?case by (simp add: json_counts_def)
next
  case (Cons p xs)
  obtain k v where p: "p = (k, v)" by (cases p)
  with Cons.prems have "is_int v" by simp
  then have "json_num v = v" by (cases v) simp_all
  with Cons p show ?case by (simp add: json_counts_def)
qed

lemma json_arms_int: "list_all is_int arms \<Longrightarrow> map json_num arms = arms"
proof (induction arms)
  case Nil
  then show ?case by simp
next
  case (Cons v arms)
  then have "is_int v" by simp
  then have "json_num v = v" by (cases v) simp_all
  with Cons show ?case by simp
qed

lemma json_branches_int:
  "list_all (\<lambda>(k, arms). list_all is_int arms) xs \<Longrightarrow> map (\<lambda>(k, arr). (k, map json_num arr)) xs = xs"
  by (induction xs) (auto simp add: json_arms_int)

lemma same_keys_map_of:
  "same_keys xs ys \<Longrightarrow> (map_of xs k = None) = (map_of ys k = None)"
  by (simp add: same_keys_def map_of_eq_None_iff)

text \<open>
  Within \<open>2 ^ 53\<close> the operator \<^verbatim>\<open>+\<close> is the integer sum; one step further it is not:
  \<open>2 ^ 53 + 1\<close> is \<open>2 ^ 53\<close>. The sum of two integers is an integer at every magnitude.
\<close>

lemma js_plus_Num:
  assumes "\<bar>x\<bar> \<le> 2 ^ 53" and "\<bar>y\<bar> \<le> 2 ^ 53" and "\<bar>x + y\<bar> \<le> 2 ^ 53"
  shows "js_plus (Some (Num x)) (Some (Num y)) = Num (x + y)"
proof -
  have "js_add (js_number x) (js_number y) = js_round (of_int (x + y))"
    using js_round_int [OF assms(1)] js_round_int [OF assms(2)]
    by (simp add: js_add_def js_number_def)
  also have "\<dots> = of_int (x + y)" using assms(3) by (rule js_round_int)
  finally show ?thesis by (simp add: js_plus_def)
qed

lemma js_plus_rounds:
  "js_plus (Some (Num (2 ^ 53))) (Some (Num 1)) = Num (2 ^ 53)"
  by code_simp

lemma js_round_of_int: "\<exists>j. js_round (of_int k) = of_int j"
proof (cases "\<bar>k\<bar> \<le> 2 ^ 53")
  case True
  then show ?thesis using js_round_int by blast
next
  case False
  define a :: rat where "a = \<bar>of_int k\<bar>"
  define e where "e = binary_exponent a"
  from False have k: "2 ^ 53 < \<bar>k\<bar>" by simp
  have an: "a = of_int \<bar>k\<bar>" by (simp add: a_def)
  have "(of_int (2 ^ 53) :: rat) < of_int \<bar>k\<bar>" using k by (simp only: of_int_less_iff)
  then have a53: "2 ^ 53 < a" by (simp add: an)
  then have a: "0 < a" by simp
  note b = binary_exponent_bounds [OF a, folded e_def]
  have e: "0 \<le> e - 52"
  proof (rule ccontr)
    assume "\<not> 0 \<le> e - 52"
    then have "e + 1 \<le> 53" by simp
    then have "(2::rat) powi (e + 1) \<le> 2 powi 53" by (intro power_int_increasing) simp_all
    with b a53 show False by simp
  qed
  have u: "(2::rat) powi (e - 52) = of_int (2 ^ nat (e - 52))"
    using e by (simp add: power_int_def)
  have kn: "rat_of_int k \<noteq> 0" using k by auto
  have s: "sgn (rat_of_int k) = of_int (sgn k)" by (simp add: sgn_if)
  have "js_round (of_int k)
          = of_int (sgn k * (round_half_even (a / 2 powi (e - 52)) * 2 ^ nat (e - 52)))"
    using kn by (simp add: js_round_def Let_def a_def [symmetric] e_def [symmetric] u s)
  then show ?thesis by blast
qed

lemma js_plus_integer:
  "\<exists>j. js_add (js_number m) (js_number n) = of_int j"
proof -
  obtain a where a: "js_number m = of_int a" using js_round_of_int [of m] by (auto simp add: js_number_def)
  obtain b where b: "js_number n = of_int b" using js_round_of_int [of n] by (auto simp add: js_number_def)
  from js_round_of_int [of "a + b"] show ?thesis by (simp add: js_add_def a b)
qed

lemma bounded_by_is_int: "bounded_by m v \<Longrightarrow> is_int v"
  by (cases v) simp_all

lemma bounded_counts_int:
  "list_all (\<lambda>(k, v). bounded_by m v) xs \<Longrightarrow> list_all (\<lambda>(k, v). is_int v) xs"
  by (induction xs) (auto intro: bounded_by_is_int)

lemma bounded_arms_int: "list_all (bounded_by m) arms \<Longrightarrow> list_all is_int arms"
  by (induction arms) (auto intro: bounded_by_is_int)

lemma bounded_branches_int:
  "list_all (\<lambda>(k, arms). list_all (bounded_by m) arms) xs \<Longrightarrow>
   list_all (\<lambda>(k, arms). list_all is_int arms) xs"
  by (induction xs) (auto intro: bounded_arms_int)

lemma bounded_counters_int:
  assumes "bounded_counters fc"
  shows "list_all (\<lambda>(k, v). is_int v) (s_counts fc)"
    and "list_all (\<lambda>(k, v). is_int v) (f_counts fc)"
    and "list_all (\<lambda>(k, arms). list_all is_int arms) (b_counts fc)"
  using assms
  by (auto simp add: bounded_counters_def intro: bounded_counts_int bounded_branches_int)

lemma js_plus_within:
  assumes "bounded_by (2 ^ 52) x" and "bounded_by (2 ^ 52) y"
  shows "js_plus (Some x) (Some y) = int_sum x y"
proof -
  from assms obtain a b where x: "x = Num a" and y: "y = Num b"
    by (cases x; cases y) simp_all
  from assms have "\<bar>a\<bar> \<le> 2 ^ 52" "\<bar>b\<bar> \<le> 2 ^ 52" by (simp_all add: x y)
  then have "\<bar>a\<bar> \<le> 2 ^ 53" "\<bar>b\<bar> \<le> 2 ^ 53" "\<bar>a + b\<bar> \<le> 2 ^ 53" by simp_all
  then show ?thesis by (simp add: x y js_plus_Num)
qed

lemma map2_js_plus_within:
  "list_all (bounded_by (2 ^ 52)) xs \<Longrightarrow> list_all (bounded_by (2 ^ 52)) ys \<Longrightarrow>
   map2 (\<lambda>x y. js_plus (Some x) (Some y)) xs ys = map2 int_sum xs ys"
proof (induction xs arbitrary: ys)
  case Nil
  then show ?case by simp
next
  case step: (Cons x xs)
  show ?case
  proof (cases ys)
    case Nil
    then show ?thesis by simp
  next
    case (Cons y ys')
    from step.prems Cons have w: "bounded_by (2 ^ 52) x" "bounded_by (2 ^ 52) y"
      "list_all (bounded_by (2 ^ 52)) xs" "list_all (bounded_by (2 ^ 52)) ys'"
      by simp_all
    from step.IH [OF w(3,4)] js_plus_within [OF w(1,2)] Cons show ?thesis by simp
  qed
qed

lemma added_counts_sum:
  assumes "list_all (\<lambda>(k, v). bounded_by (2 ^ 52) v) xs" and "list_all (\<lambda>(k, v). bounded_by (2 ^ 52) v) ys"
  shows "added_counts xs ys = sum_counts xs ys"
proof (rule ext)
  fix k
  show "added_counts xs ys k = sum_counts xs ys k"
  proof (cases "map_of xs k")
    case None
    then show ?thesis by (simp add: added_counts_def sum_counts_def)
  next
    case x: (Some x)
    show ?thesis
    proof (cases "map_of ys k")
      case None
      with x show ?thesis by (simp add: added_counts_def sum_counts_def)
    next
      case y: (Some y)
      from x have "(k, x) \<in> set xs" by (rule map_of_SomeD)
      with assms(1) have wx: "bounded_by (2 ^ 52) x" by (auto simp add: list_all_iff)
      from y have "(k, y) \<in> set ys" by (rule map_of_SomeD)
      with assms(2) have wy: "bounded_by (2 ^ 52) y" by (auto simp add: list_all_iff)
      from x y show ?thesis
        by (simp add: added_counts_def sum_counts_def js_plus_within [OF wx wy])
    qed
  qed
qed

lemma added_arms_sum:
  assumes "list_all (\<lambda>(k, arms). list_all (bounded_by (2 ^ 52)) arms) xs"
    and "list_all (\<lambda>(k, arms). list_all (bounded_by (2 ^ 52)) arms) ys"
  shows "added_arms xs ys = sum_arms xs ys"
proof (rule ext)
  fix k
  show "added_arms xs ys k = sum_arms xs ys k"
  proof (cases "map_of xs k")
    case None
    then show ?thesis by (simp add: added_arms_def sum_arms_def)
  next
    case x: (Some x)
    show ?thesis
    proof (cases "map_of ys k")
      case None
      with x show ?thesis by (simp add: added_arms_def sum_arms_def)
    next
      case y: (Some y)
      from x have "(k, x) \<in> set xs" by (rule map_of_SomeD)
      with assms(1) have wx: "list_all (bounded_by (2 ^ 52)) x" by (auto simp add: list_all_iff)
      from y have "(k, y) \<in> set ys" by (rule map_of_SomeD)
      with assms(2) have wy: "list_all (bounded_by (2 ^ 52)) y" by (auto simp add: list_all_iff)
      from x y show ?thesis
        by (simp add: added_arms_def sum_arms_def map2_js_plus_within [OF wx wy])
    qed
  qed
qed

lemma int_sum_commute: "int_sum x y = int_sum y x"
  by (cases x; cases y) simp_all

lemma map2_int_sum_commute: "map2 int_sum xs ys = map2 int_sum ys xs"
proof (induction xs arbitrary: ys)
  case Nil
  then show ?case by simp
next
  case (Cons x xs)
  then show ?case by (cases ys) (simp_all add: int_sum_commute [of x])
qed

lemma sum_counts_commute: "sum_counts xs ys = sum_counts ys xs"
  by (rule ext) (simp add: sum_counts_def int_sum_commute split: option.splits)

lemma sum_arms_commute: "sum_arms xs ys = sum_arms ys xs"
  by (rule ext) (simp add: sum_arms_def map2_int_sum_commute split: option.splits)

lemma mergeFileCoverage_sum:
  assumes sk: "same_keys (s_counts a) (s_counts b)"
    and fk: "same_keys (f_counts a) (f_counts b)"
    and bk: "same_keys (b_counts a) (b_counts b)"
    and len: "list_all (\<lambda>(k, arms). map_option length (map_of (b_counts b) k) = Some (length arms)) (b_counts a)"
    and ints: "bounded_counters a"
  shows "\<exists>r. mergeFileCoverage a b = Inr r
           \<and> l_counts r = None \<and> statementMap r = statementMap a \<and> fnMap r = fnMap a
           \<and> map fst (s_counts r) = map fst (s_counts a)
           \<and> map fst (f_counts r) = map fst (f_counts a)
           \<and> map fst (b_counts r) = map fst (b_counts a)
           \<and> map_of (s_counts r) = added_counts (s_counts a) (s_counts b)
           \<and> map_of (f_counts r) = added_counts (f_counts a) (f_counts b)
           \<and> map_of (b_counts r) = added_arms (b_counts a) (b_counts b)"
proof -
  from bounded_counters_int [OF ints] have js: "json_counts (s_counts a) = s_counts a"
    and jf: "json_counts (f_counts a) = f_counts a"
    and jb: "map (\<lambda>(k, arr). (k, map json_num arr)) (b_counts a) = b_counts a"
    by (simp_all add: json_counts_int json_branches_int)
  have counts: "map_of (merge_counts xs ys) = added_counts xs ys \<and> map fst (merge_counts xs ys) = map fst xs"
    if k: "same_keys xs ys" for xs ys
  proof
    show "map_of (merge_counts xs ys) = added_counts xs ys"
    proof (rule ext)
      fix k'
      from k have d: "distinct (map fst ys)" by (simp add: same_keys_def)
      show "map_of (merge_counts xs ys) k' = added_counts xs ys k'"
        using same_keys_map_of [OF k, of k']
        by (auto simp add: merge_counts_map_of [OF d] added_counts_def split: option.splits)
    qed
    from k have "set (map fst ys) \<subseteq> set (map fst xs)" by (simp add: same_keys_def)
    then show "map fst (merge_counts xs ys) = map fst xs" by (rule merge_counts_keys)
  qed
  from bk have bd: "distinct (map fst (b_counts b))"
    and bs: "set (map fst (b_counts b)) \<subseteq> set (map fst (b_counts a))"
    by (simp_all add: same_keys_def)
  from merge_branches_result [OF bd bs] obtain rb where rb:
    "merge_branches (b_counts a) (b_counts b) = Inr rb" "map fst rb = map fst (b_counts a)"
    "\<forall>k. map_of rb k = (case map_of (b_counts b) k of None \<Rightarrow> map_of (b_counts a) k
                  | Some ys \<Rightarrow> map_option (\<lambda>xs. merge_arrays xs ys) (map_of (b_counts a) k))"
    by blast
  have arms: "map_of rb = added_arms (b_counts a) (b_counts b)"
  proof (rule ext)
    fix k
    show "map_of rb k = added_arms (b_counts a) (b_counts b) k"
    proof (cases "map_of (b_counts a) k")
      case None
      with same_keys_map_of [OF bk, of k] rb(3) show ?thesis
        by (simp add: added_arms_def)
    next
      case (Some xs)
      then have "(k, xs) \<in> set (b_counts a)" by (rule map_of_SomeD)
      with len have "map_option length (map_of (b_counts b) k) = Some (length xs)"
        by (auto simp add: list_all_iff)
      then obtain ys where ys: "map_of (b_counts b) k = Some ys" "length ys = length xs"
        by auto
      with Some rb(3) show ?thesis
        by (simp add: added_arms_def merge_arrays_map2)
    qed
  qed
  let ?r = "a\<lparr> s_counts := merge_counts (s_counts a) (s_counts b),
               f_counts := merge_counts (f_counts a) (f_counts b),
               b_counts := rb, l_counts := None \<rparr>"
  have "mergeFileCoverage a b = Inr ?r"
    by (simp add: mergeFileCoverage_def json_copy_def js jf jb rb(1) Let_def)
  with counts [OF sk] counts [OF fk] arms rb(2) show ?thesis by simp
qed

text \<open>
  C3. For every two file coverage objects \<open>a\<close> and \<open>b\<close> for the same file, whose counters
  are integers of magnitude at most \<open>2 ^ 52\<close> (so that every sum is within \<open>2 ^ 53\<close> and
  no addition rounds), \<open>mergeFileCoverage a b\<close> returns an object \<open>r\<close> that keeps
  \<^verbatim>\<open>statementMap\<close>, \<^verbatim>\<open>fnMap\<close> and the keys of \<open>a\<close>, whose \<^verbatim>\<open>s\<close> and \<^verbatim>\<open>f\<close> are the
  key-wise integer sums and whose \<^verbatim>\<open>b\<close> is the index-wise integer sum, arm by arm, of
  the counters of \<open>a\<close> and \<open>b\<close>, and that has no \<^verbatim>\<open>l\<close> field whether or not \<open>a\<close> or \<open>b\<close>
  had one. The counters of \<open>mergeFileCoverage b a\<close> are the same.
\<close>

theorem mergeFileCoverage_sums:
  assumes "same_file a b" and "bounded_counters a" and "bounded_counters b"
  shows "\<exists>r r'. mergeFileCoverage a b = Inr r \<and> mergeFileCoverage b a = Inr r'
           \<and> l_counts r = None \<and> statementMap r = statementMap a \<and> fnMap r = fnMap a
           \<and> map fst (s_counts r) = map fst (s_counts a)
           \<and> map fst (f_counts r) = map fst (f_counts a)
           \<and> map fst (b_counts r) = map fst (b_counts a)
           \<and> map_of (s_counts r) = sum_counts (s_counts a) (s_counts b)
           \<and> map_of (f_counts r) = sum_counts (f_counts a) (f_counts b)
           \<and> map_of (b_counts r) = sum_arms (b_counts a) (b_counts b)
           \<and> map_of (s_counts r') = map_of (s_counts r)
           \<and> map_of (f_counts r') = map_of (f_counts r)
           \<and> map_of (b_counts r') = map_of (b_counts r)"
proof -
  have sym: "same_keys ys xs" if "same_keys xs ys" for xs :: "(string \<times> 'a) list" and ys :: "(string \<times> 'a) list"
    using that by (simp add: same_keys_def)
  from assms(1) have k: "same_keys (s_counts a) (s_counts b)" "same_keys (f_counts a) (f_counts b)"
    "same_keys (b_counts a) (b_counts b)"
    and len: "list_all (\<lambda>(k, arms). map_option length (map_of (b_counts b) k) = Some (length arms)) (b_counts a)"
    by (simp_all add: same_file_def)
  have len': "list_all (\<lambda>(k, arms). map_option length (map_of (b_counts a) k) = Some (length arms)) (b_counts b)"
    unfolding list_all_iff
  proof
    fix p assume pm: "p \<in> set (b_counts b)"
    obtain k ys where p: "p = (k, ys)" by (cases p)
    with pm have m: "(k, ys) \<in> set (b_counts b)" by simp
    with k(3) have "k \<in> fst ` set (b_counts a)" by (force simp add: same_keys_def)
    then obtain xs where xs: "(k, xs) \<in> set (b_counts a)" by auto
    with len have "map_option length (map_of (b_counts b) k) = Some (length xs)"
      by (auto simp add: list_all_iff)
    moreover from k(3) m have "map_of (b_counts b) k = Some ys" by (simp add: same_keys_def)
    moreover from k(3) xs have "map_of (b_counts a) k = Some xs" by (simp add: same_keys_def)
    ultimately show "case p of (k, arms) \<Rightarrow> map_option length (map_of (b_counts a) k) = Some (length arms)"
      using p by simp
  qed
  from assms(2) have wa: "list_all (\<lambda>(k, v). bounded_by (2 ^ 52) v) (s_counts a)"
    "list_all (\<lambda>(k, v). bounded_by (2 ^ 52) v) (f_counts a)"
    "list_all (\<lambda>(k, arms). list_all (bounded_by (2 ^ 52)) arms) (b_counts a)"
    by (simp_all add: bounded_counters_def)
  from assms(3) have wb: "list_all (\<lambda>(k, v). bounded_by (2 ^ 52) v) (s_counts b)"
    "list_all (\<lambda>(k, v). bounded_by (2 ^ 52) v) (f_counts b)"
    "list_all (\<lambda>(k, arms). list_all (bounded_by (2 ^ 52)) arms) (b_counts b)"
    by (simp_all add: bounded_counters_def)
  note eqs = added_counts_sum [OF wa(1) wb(1)] added_counts_sum [OF wa(2) wb(2)]
    added_arms_sum [OF wa(3) wb(3)]
  note eqs' = added_counts_sum [OF wb(1) wa(1)] added_counts_sum [OF wb(2) wa(2)]
    added_arms_sum [OF wb(3) wa(3)]
  from mergeFileCoverage_sum [OF k len assms(2)] obtain r where r:
    "mergeFileCoverage a b = Inr r" "l_counts r = None" "statementMap r = statementMap a" "fnMap r = fnMap a"
    "map fst (s_counts r) = map fst (s_counts a)" "map fst (f_counts r) = map fst (f_counts a)"
    "map fst (b_counts r) = map fst (b_counts a)"
    "map_of (s_counts r) = sum_counts (s_counts a) (s_counts b)"
    "map_of (f_counts r) = sum_counts (f_counts a) (f_counts b)"
    "map_of (b_counts r) = sum_arms (b_counts a) (b_counts b)"
    unfolding eqs by blast
  from mergeFileCoverage_sum [OF sym [OF k(1)] sym [OF k(2)] sym [OF k(3)] len' assms(3)] obtain r' where r':
    "mergeFileCoverage b a = Inr r'"
    "map_of (s_counts r') = sum_counts (s_counts b) (s_counts a)"
    "map_of (f_counts r') = sum_counts (f_counts b) (f_counts a)"
    "map_of (b_counts r') = sum_arms (b_counts b) (b_counts a)"
    unfolding eqs' by blast
  from r r' show ?thesis
    by (simp add: sum_counts_commute [of "s_counts b"] sum_counts_commute [of "f_counts b"]
                  sum_arms_commute [of "b_counts b"])
qed

theorem mergeFileCoverage_sums_witness:
  "same_file merge_example_a merge_example_b
   \<and> bounded_counters merge_example_a \<and> bounded_counters merge_example_b
   \<and> l_counts merge_example_a \<noteq> None
   \<and> mergeFileCoverage merge_example_a merge_example_b
       = Inr (merge_example_a\<lparr> s_counts := [(''s1'', Num 3), (''s2'', Num 3)],
                               f_counts := [(''f1'', Num 3)],
                               b_counts := [(''b1'', [Num 1, Num 5])],
                               l_counts := None \<rparr>)
   \<and> sum_counts (s_counts merge_example_a) (s_counts merge_example_b) ''s1'' = Some (Num 3)
   \<and> sum_counts (s_counts merge_example_a) (s_counts merge_example_b) ''s2'' = Some (Num 3)
   \<and> (\<exists>r r'. mergeFileCoverage merge_example_a merge_example_b = Inr r
           \<and> mergeFileCoverage merge_example_b merge_example_a = Inr r'
           \<and> l_counts r = None
           \<and> map_of (s_counts r) = sum_counts (s_counts merge_example_a) (s_counts merge_example_b)
           \<and> map_of (s_counts r') = map_of (s_counts r)
           \<and> map_of (f_counts r') = map_of (f_counts r)
           \<and> map_of (b_counts r') = map_of (b_counts r))"
proof -
  have h1: "same_file merge_example_a merge_example_b"
    by (simp add: same_file_def same_keys_def merge_example_a_def merge_example_b_def)
  have h2: "bounded_counters merge_example_a"
    by (simp add: bounded_counters_def merge_example_a_def)
  have h3: "bounded_counters merge_example_b"
    by (simp add: bounded_counters_def merge_example_a_def merge_example_b_def)
  have l: "l_counts merge_example_a \<noteq> None" by (simp add: merge_example_a_def)
  have v: "mergeFileCoverage merge_example_a merge_example_b
       = Inr (merge_example_a\<lparr> s_counts := [(''s1'', Num 3), (''s2'', Num 3)],
                               f_counts := [(''f1'', Num 3)],
                               b_counts := [(''b1'', [Num 1, Num 5])],
                               l_counts := None \<rparr>)"
    by (simp add: mergeFileCoverage_def json_copy_def json_counts_def merge_counts_def
          merge_arrays_eq array_get_def js_plus_Num merge_example_a_def merge_example_b_def upt_rec)
  have s: "sum_counts (s_counts merge_example_a) (s_counts merge_example_b) ''s1'' = Some (Num 3)"
    "sum_counts (s_counts merge_example_a) (s_counts merge_example_b) ''s2'' = Some (Num 3)"
    by (simp_all add: sum_counts_def merge_example_a_def merge_example_b_def)
  from mergeFileCoverage_sums [OF h1 h2 h3] h1 h2 h3 l v s show ?thesis by blast
qed

subsection \<open>toYUICoverage\<close>






















subsection \<open>mergeFileCoverage and its arguments\<close>

lemma only_new_counters_refl: "only_new_counters n h h"
  by (simp add: only_new_counters_def)

lemma only_new_counters_trans:
  "only_new_counters n h h' \<Longrightarrow> only_new_counters n h' h'' \<Longrightarrow> only_new_counters n h h''"
  by (simp add: only_new_counters_def)

lemma add_count_only_new:
  "n \<le> field (file_at h ret) \<Longrightarrow> only_new_counters n h (add_count field ret second k h)"
  by (simp add: only_new_counters_def add_count_def Let_def)

lemma fold_add_count_only_new:
  "n \<le> field (file_at h ret) \<Longrightarrow> only_new_counters n h (fold (add_count field ret second) ks h)"
proof (induction ks arbitrary: h)
  case Nil
  then show ?case by (simp add: only_new_counters_refl)
next
  case (Cons k ks)
  let ?h1 = "add_count field ret second k h"
  from Cons.prems have 1: "only_new_counters n h ?h1" by (rule add_count_only_new)
  then have "file_at ?h1 = file_at h" by (simp add: only_new_counters_def)
  with Cons.prems have "n \<le> field (file_at ?h1 ret)" by simp
  from only_new_counters_trans [OF 1 Cons.IH [OF this]] show ?case by simp
qed

lemma add_counts_only_new:
  "n \<le> field (file_at h ret) \<Longrightarrow> only_new_counters n h (add_counts field ret second h)"
  by (simp add: add_counts_def fold_add_count_only_new)

lemma add_arm_only_new: "n \<le> retArray \<Longrightarrow> only_new_counters n h (add_arm retArray secondArray i h)"
  by (simp add: only_new_counters_def add_arm_def Let_def)

lemma fold_add_arm_only_new:
  "n \<le> retArray \<Longrightarrow> only_new_counters n h (fold (add_arm retArray secondArray) is h)"
proof (induction "is" arbitrary: h)
  case Nil
  then show ?case by (simp add: only_new_counters_refl)
next
  case (Cons i "is")
  from only_new_counters_trans [OF add_arm_only_new [OF Cons.prems] Cons.IH [OF Cons.prems]]
  show ?case by simp
qed

lemma add_arms_only_new: "n \<le> retArray \<Longrightarrow> only_new_counters n h (add_arms retArray secondArray h)"
  by (simp add: add_arms_def fold_add_arm_only_new)

lemma add_branches_only_new:
  "list_all (\<lambda>(k, r). n \<le> r) (branches_at h (b_ref (file_at h ret))) \<Longrightarrow>
   only_new_counters n h (snd (add_branches ret second ks h))"
proof (induction ks arbitrary: h)
  case Nil
  then show ?case by (simp add: only_new_counters_refl)
next
  case (Cons k ks)
  show ?case
  proof (cases "map_of (branches_at h (b_ref (file_at h ret))) k")
    case None
    then show ?thesis by (simp add: only_new_counters_refl)
  next
    case ra: (Some retArray)
    then have "(k, retArray) \<in> set (branches_at h (b_ref (file_at h ret)))" by (rule map_of_SomeD)
    with Cons.prems have n: "n \<le> retArray" by (auto simp add: list_all_iff)
    show ?thesis
    proof (cases "map_of (branches_at h (b_ref (file_at h second))) k")
      case None
      with ra Cons show ?thesis by (simp add: only_new_counters_refl)
    next
      case (Some secondArray)
      let ?h1 = "add_arms retArray secondArray h"
      have 1: "only_new_counters n h ?h1" using n by (rule add_arms_only_new)
      then have "branches_at ?h1 = branches_at h" "file_at ?h1 = file_at h"
        by (simp_all add: only_new_counters_def)
      with Cons.prems have "list_all (\<lambda>(k, r). n \<le> r) (branches_at ?h1 (b_ref (file_at ?h1 ret)))"
        by simp
      from only_new_counters_trans [OF 1 Cons.IH [OF this]] ra Some show ?thesis by simp
    qed
  qed
qed

lemma new_arrays_result:
  "file_at (snd (new_arrays bs h)) = file_at h
   \<and> stmts_at (snd (new_arrays bs h)) = stmts_at h
   \<and> fns_at (snd (new_arrays bs h)) = fns_at h
   \<and> counts_at (snd (new_arrays bs h)) = counts_at h
   \<and> branches_at (snd (new_arrays bs h)) = branches_at h
   \<and> lines_at (snd (new_arrays bs h)) = lines_at h
   \<and> (\<forall>a<next_addr h. array_at (snd (new_arrays bs h)) a = array_at h a)
   \<and> next_addr h \<le> next_addr (snd (new_arrays bs h))
   \<and> list_all (\<lambda>(k, r). next_addr h \<le> r) (fst (new_arrays bs h))"
proof (induction bs arbitrary: h)
  case Nil
  then show ?case by simp
next
  case (Cons p bs)
  obtain k arr where p: "p = (k, arr)" by (cases p)
  define h1 where "h1 = snd (new_array arr h)"
  have h1: "file_at h1 = file_at h" "stmts_at h1 = stmts_at h" "fns_at h1 = fns_at h"
    "counts_at h1 = counts_at h" "branches_at h1 = branches_at h" "lines_at h1 = lines_at h"
    "next_addr h1 = Suc (next_addr h)" "\<forall>a<next_addr h. array_at h1 a = array_at h a"
    "fst (new_array arr h) = next_addr h"
    by (simp_all add: h1_def new_array_def)
  have step: "new_arrays (p # bs) h
     = ((k, next_addr h) # fst (new_arrays bs h1), snd (new_arrays bs h1))"
    by (simp add: p h1_def case_prod_beta new_array_def)
  note IH = Cons.IH [of h1]
  have l: "list_all (\<lambda>(k, r). next_addr h \<le> r) (fst (new_arrays bs h1))"
    using IH h1(7) by (auto simp add: list_all_iff)
  from IH h1 l show ?case unfolding step by simp
qed


lemma unchanged_below_refl: "unchanged_below n h h"
  by (simp add: unchanged_below_def)

lemma unchanged_below_trans:
  "unchanged_below n h h' \<Longrightarrow> unchanged_below n h' h'' \<Longrightarrow> unchanged_below n h h''"
  by (simp add: unchanged_below_def)

lemma only_new_counters_unchanged: "only_new_counters n h h' \<Longrightarrow> unchanged_below n h h'"
  by (simp add: only_new_counters_def unchanged_below_def)

lemma json_parse_result:
  "unchanged_below (next_addr h) h (snd (json_parse v h))
   \<and> next_addr h \<le> next_addr (snd (json_parse v h))
   \<and> next_addr h \<le> fst (json_parse v h)
   \<and> next_addr h \<le> s_ref (file_at (snd (json_parse v h)) (fst (json_parse v h)))
   \<and> next_addr h \<le> f_ref (file_at (snd (json_parse v h)) (fst (json_parse v h)))
   \<and> list_all (\<lambda>(k, r). next_addr h \<le> r)
        (branches_at (snd (json_parse v h)) (b_ref (file_at (snd (json_parse v h)) (fst (json_parse v h)))))"
proof -
  define h1 where "h1 = snd (new_stmts (statementMap v) h)"
  define h2 where "h2 = snd (new_counts (s_counts v) h1)"
  define h3 where "h3 = snd (new_fns (fnMap v) h2)"
  define h4 where "h4 = snd (new_counts (f_counts v) h3)"
  define arrays where "arrays = fst (new_arrays (b_counts v) h4)"
  define h5 where "h5 = snd (new_arrays (b_counts v) h4)"
  define h6 where "h6 = snd (new_branches arrays h5)"
  define lh where "lh = (case l_counts v of
                      None \<Rightarrow> (None, h6)
                    | Some lineMap \<Rightarrow> (let (a, h) = new_lines lineMap h6 in (Some a, h)))"
  define h7 where "h7 = snd lh"
  define fo where "fo = \<lparr> statementMap_ref = next_addr h, s_ref = next_addr h1, fnMap_ref = next_addr h2,
                         f_ref = next_addr h3, b_ref = next_addr h5, l_ref = fst lh \<rparr>"
  have jp: "json_parse v h = new_file fo h7"
    by (simp add: json_parse_def case_prod_beta Let_def h1_def h2_def h3_def h4_def h5_def h6_def h7_def
          arrays_def lh_def fo_def new_stmts_def new_counts_def new_fns_def new_branches_def
          cong: option.case_cong)
  note na = new_arrays_result [of "b_counts v" h4, folded h5_def arrays_def]
  have n1: "next_addr h1 = Suc (next_addr h)" by (simp add: h1_def new_stmts_def)
  have n2: "next_addr h2 = Suc (next_addr h1)" by (simp add: h2_def new_counts_def)
  have n3: "next_addr h3 = Suc (next_addr h2)" by (simp add: h3_def new_fns_def)
  have n4: "next_addr h4 = Suc (next_addr h3)" by (simp add: h4_def new_counts_def)
  have n5: "next_addr h4 \<le> next_addr h5" using na by simp
  have n6: "next_addr h6 = Suc (next_addr h5)" by (simp add: h6_def new_branches_def)
  have n7: "next_addr h6 \<le> next_addr h7"
    by (simp add: h7_def lh_def new_lines_def split: option.splits)
  have u1: "unchanged_below (next_addr h) h h1"
    by (simp add: unchanged_below_def h1_def new_stmts_def)
  have u2: "unchanged_below (next_addr h) h1 h2"
    using n1 by (simp add: unchanged_below_def h2_def new_counts_def)
  have u3: "unchanged_below (next_addr h) h2 h3"
    using n1 n2 by (simp add: unchanged_below_def h3_def new_fns_def)
  have u4: "unchanged_below (next_addr h) h3 h4"
    using n1 n2 n3 by (simp add: unchanged_below_def h4_def new_counts_def)
  have u5: "unchanged_below (next_addr h) h4 h5"
    using n1 n2 n3 n4 na by (simp add: unchanged_below_def)
  have u6: "unchanged_below (next_addr h) h5 h6"
    using n1 n2 n3 n4 n5 by (simp add: unchanged_below_def h6_def new_branches_def)
  have u7: "unchanged_below (next_addr h) h6 h7"
    using n1 n2 n3 n4 n5 n6
    by (simp add: unchanged_below_def h7_def lh_def new_lines_def split: option.splits)
  have u8: "unchanged_below (next_addr h) h7 (snd (new_file fo h7))"
    using n1 n2 n3 n4 n5 n6 n7 by (simp add: unchanged_below_def new_file_def)
  have u: "unchanged_below (next_addr h) h (snd (json_parse v h))"
    unfolding jp
    by (rule unchanged_below_trans [OF u1 unchanged_below_trans [OF u2 unchanged_below_trans [OF u3
          unchanged_below_trans [OF u4 unchanged_below_trans [OF u5 unchanged_below_trans [OF u6
          unchanged_below_trans [OF u7 u8]]]]]]])
  have f: "fst (json_parse v h) = next_addr h7" "file_at (snd (json_parse v h)) (next_addr h7) = fo"
    "next_addr (snd (json_parse v h)) = Suc (next_addr h7)"
    "branches_at (snd (json_parse v h)) = branches_at h7"
    by (simp_all add: jp new_file_def)
  have b7: "branches_at h7 = branches_at h6"
    by (simp add: h7_def lh_def new_lines_def split: option.splits)
  have b6: "branches_at h6 (next_addr h5) = arrays" by (simp add: h6_def new_branches_def)
  have la: "list_all (\<lambda>(k, r). next_addr h \<le> r) arrays"
    using na n1 n2 n3 n4 by (auto simp add: list_all_iff)
  from u f b7 b6 la n1 n2 n3 n4 n5 n6 n7 show ?thesis
    by (simp add: fo_def)
qed

lemma read_file_unchanged:
  assumes "allocated h x" and "unchanged_below (next_addr h) h h'"
  shows "read_file h' x = read_file h x"
proof -
  let ?fo = "file_at h x"
  from assms have fo: "file_at h' x = ?fo" by (simp add: allocated_def unchanged_below_def Let_def)
  from assms have parts: "stmts_at h' (statementMap_ref ?fo) = stmts_at h (statementMap_ref ?fo)"
    "counts_at h' (s_ref ?fo) = counts_at h (s_ref ?fo)"
    "fns_at h' (fnMap_ref ?fo) = fns_at h (fnMap_ref ?fo)"
    "counts_at h' (f_ref ?fo) = counts_at h (f_ref ?fo)"
    "branches_at h' (b_ref ?fo) = branches_at h (b_ref ?fo)"
    by (simp_all add: allocated_def unchanged_below_def Let_def)
  have arrays: "map (\<lambda>(k, r). (k, array_at h' r)) (branches_at h (b_ref ?fo))
                  = map (\<lambda>(k, r). (k, array_at h r)) (branches_at h (b_ref ?fo))"
  proof (rule map_cong [OF refl])
    fix p assume "p \<in> set (branches_at h (b_ref ?fo))"
    with assms(1) have "snd p < next_addr h"
      by (auto simp add: allocated_def Let_def list_all_iff)
    with assms(2) show "(case p of (k, r) \<Rightarrow> (k, array_at h' r)) = (case p of (k, r) \<Rightarrow> (k, array_at h r))"
      by (simp add: unchanged_below_def case_prod_beta)
  qed
  have lines: "map_option (lines_at h') (l_ref ?fo) = map_option (lines_at h) (l_ref ?fo)"
    using assms by (cases "l_ref ?fo") (simp_all add: allocated_def unchanged_below_def Let_def)
  show ?thesis
    by (simp add: read_file_def Let_def fo parts arrays lines)
qed

text \<open>
  C9. For every heap and every two file coverage objects \<open>first\<close> and \<open>second\<close> in it
  (the same object or different ones, sharing parts or not), \<open>mergeFileCoverage\<close> changes
  no object that existed before the call, whether it returns or throws: every assignment
  goes to the copy made by \<^verbatim>\<open>JSON.parse\<close> or to a part of it. So both arguments have,
  field for field and \<^verbatim>\<open>l\<close> included, the values they had before the call, and the
  object returned is a new one.
\<close>

theorem mergeFileCoverage_heap_frame:
  "unchanged_below (next_addr h) h (snd (mergeFileCoverage_heap h first second))
   \<and> next_addr h \<le> next_addr (snd (mergeFileCoverage_heap h first second))
   \<and> (allocated h first \<longrightarrow>
        read_file (snd (mergeFileCoverage_heap h first second)) first = read_file h first)
   \<and> (allocated h second \<longrightarrow>
        read_file (snd (mergeFileCoverage_heap h first second)) second = read_file h second)
   \<and> (\<forall>ret. fst (mergeFileCoverage_heap h first second) = Inr ret \<longrightarrow> next_addr h \<le> ret)"
proof -
  define n where "n = next_addr h"
  define v where "v = json_copy (read_file h first)"
  define ret where "ret = fst (json_parse v h)"
  define h1 where "h1 = snd (json_parse v h)"
  define h2 where "h2 = h1\<lparr> file_at := (file_at h1)(ret := (file_at h1 ret)\<lparr> l_ref := None \<rparr>) \<rparr>"
  define h3 where "h3 = add_counts s_ref ret second h2"
  define h4 where "h4 = add_counts f_ref ret second h3"
  define ks where "ks = map fst (branches_at h4 (b_ref (file_at h4 second)))"
  define h5 where "h5 = snd (add_branches ret second ks h4)"
  define r where "r = fst (add_branches ret second ks h4)"
  have m: "mergeFileCoverage_heap h first second
             = (case r of Inl e \<Rightarrow> (Inl e, h5) | Inr _ \<Rightarrow> (Inr ret, h5))"
    by (simp add: mergeFileCoverage_heap_def case_prod_beta Let_def v_def ret_def h1_def h2_def
          h3_def h4_def ks_def h5_def r_def cong: sum.case_cong)
  note jp = json_parse_result [of h v, folded ret_def h1_def n_def]
  have u1: "unchanged_below n h h1" using jp by simp
  have u2: "unchanged_below n h1 h2" using jp by (simp add: unchanged_below_def h2_def)
  have s2: "n \<le> s_ref (file_at h2 ret)" "n \<le> f_ref (file_at h2 ret)"
    "list_all (\<lambda>(k, r). n \<le> r) (branches_at h2 (b_ref (file_at h2 ret)))"
    using jp by (simp_all add: h2_def)
  have o3: "only_new_counters n h2 h3" unfolding h3_def using s2(1) by (rule add_counts_only_new)
  then have e3: "file_at h3 = file_at h2" "branches_at h3 = branches_at h2" "next_addr h3 = next_addr h2"
    by (simp_all add: only_new_counters_def)
  have o4: "only_new_counters n h3 h4" unfolding h4_def using s2(2) e3(1)
    by (intro add_counts_only_new) simp
  then have e4: "file_at h4 = file_at h2" "branches_at h4 = branches_at h2" "next_addr h4 = next_addr h2"
    using e3 by (simp_all add: only_new_counters_def)
  have o5: "only_new_counters n h4 h5" unfolding h5_def using s2(3) e4
    by (intro add_branches_only_new) simp
  have u: "unchanged_below n h h5"
    by (rule unchanged_below_trans [OF u1 unchanged_below_trans [OF u2
          only_new_counters_unchanged [OF only_new_counters_trans [OF o3 only_new_counters_trans [OF o4 o5]]]]])
  have s: "snd (mergeFileCoverage_heap h first second) = h5"
    by (simp add: m split: sum.splits)
  have nx: "n \<le> next_addr h5"
    using jp o5 e4 by (simp add: only_new_counters_def h2_def)
  have res: "\<forall>ret'. fst (mergeFileCoverage_heap h first second) = Inr ret' \<longrightarrow> n \<le> ret'"
    using jp by (auto simp add: m split: sum.splits)
  have rf: "allocated h x \<longrightarrow> read_file h5 x = read_file h x" for x
    using read_file_unchanged [of h x h5] u by (simp add: n_def)
  from u nx res rf [of first] rf [of second] show ?thesis
    unfolding s n_def by blast
qed

theorem mergeFileCoverage_heap_frame_witness:
  "allocated heap_example 8 \<and> allocated heap_example 9
   \<and> read_file heap_example 8 = merge_example_a \<and> read_file heap_example 9 = merge_example_b
   \<and> fst (mergeFileCoverage_heap heap_example 8 9) = Inr 20
   \<and> read_file (snd (mergeFileCoverage_heap heap_example 8 9)) 20
       = merge_example_a\<lparr> s_counts := [(''s1'', Num 3), (''s2'', Num 3)],
                           f_counts := [(''f1'', Num 3)],
                           b_counts := [(''b1'', [Num 1, Num 5])],
                           l_counts := None \<rparr>
   \<and> read_file (snd (mergeFileCoverage_heap heap_example 8 9)) 8 = merge_example_a
   \<and> read_file (snd (mergeFileCoverage_heap heap_example 8 9)) 9 = merge_example_b"
proof -
  have h: "allocated heap_example 8" "allocated heap_example 9"
    by (simp_all add: allocated_def heap_example_def)
  have v: "read_file heap_example 8 = merge_example_a" "read_file heap_example 9 = merge_example_b"
    by (simp_all add: read_file_def heap_example_def merge_example_a_def merge_example_b_def)
  have r: "fst (mergeFileCoverage_heap heap_example 8 9) = Inr 20
     \<and> read_file (snd (mergeFileCoverage_heap heap_example 8 9)) 20
       = merge_example_a\<lparr> s_counts := [(''s1'', Num 3), (''s2'', Num 3)],
                           f_counts := [(''f1'', Num 3)],
                           b_counts := [(''b1'', [Num 1, Num 5])],
                           l_counts := None \<rparr>"
    by (simp add: mergeFileCoverage_heap_def json_parse_def json_copy_def json_counts_def read_file_def
          new_stmts_def new_counts_def new_fns_def new_array_def new_branches_def new_lines_def
          new_file_def add_counts_def add_count_def add_arms_def add_arm_def array_get_def
          js_plus_Num heap_example_def merge_example_a_def merge_example_b_def Let_def upt_rec)
  from mergeFileCoverage_heap_frame [of heap_example 8 9] h v r show ?thesis by simp
qed

subsection \<open>mergeFileCoverage on the heap and on values\<close>

text \<open>
  The copy that \<^verbatim>\<open>JSON.parse\<close> creates reads back as the value parsed, and its parts
  are objects of their own.
\<close>

lemma new_arrays_read:
  "map (\<lambda>(k, r). (k, array_at (snd (new_arrays bs h)) r)) (fst (new_arrays bs h)) = bs
   \<and> distinct (map snd (fst (new_arrays bs h)))
   \<and> list_all (\<lambda>(k, r). r < next_addr (snd (new_arrays bs h))) (fst (new_arrays bs h))"
proof (induction bs arbitrary: h)
  case Nil
  then show ?case by simp
next
  case (Cons p bs)
  obtain k arr where p: "p = (k, arr)" by (cases p)
  define h1 where "h1 = snd (new_array arr h)"
  define refs where "refs = fst (new_arrays bs h1)"
  define h2 where "h2 = snd (new_arrays bs h1)"
  have h1: "next_addr h1 = Suc (next_addr h)" "array_at h1 (next_addr h) = arr"
    by (simp_all add: h1_def new_array_def)
  have step: "new_arrays (p # bs) h = ((k, next_addr h) # refs, h2)"
    by (simp add: p h1_def refs_def h2_def case_prod_beta new_array_def)
  note IH = Cons.IH [of h1, folded refs_def h2_def]
  note na = new_arrays_result [of bs h1, folded refs_def h2_def]
  from na h1 have a: "array_at h2 (next_addr h) = arr" by simp
  from na h1 have fresh: "next_addr h \<notin> snd ` set refs" by (auto simp add: list_all_iff)
  from na h1 have lt: "next_addr h < next_addr h2" by simp
  from IH a fresh lt p show ?case unfolding step by (simp add: image_image)
qed

lemma json_parse_read:
  "read_file (snd (json_parse v h)) (fst (json_parse v h)) = v
   \<and> s_ref (file_at (snd (json_parse v h)) (fst (json_parse v h)))
       \<noteq> f_ref (file_at (snd (json_parse v h)) (fst (json_parse v h)))
   \<and> distinct (map snd (branches_at (snd (json_parse v h))
                   (b_ref (file_at (snd (json_parse v h)) (fst (json_parse v h))))))"
proof -
  define h1 where "h1 = snd (new_stmts (statementMap v) h)"
  define h2 where "h2 = snd (new_counts (s_counts v) h1)"
  define h3 where "h3 = snd (new_fns (fnMap v) h2)"
  define h4 where "h4 = snd (new_counts (f_counts v) h3)"
  define arrays where "arrays = fst (new_arrays (b_counts v) h4)"
  define h5 where "h5 = snd (new_arrays (b_counts v) h4)"
  define h6 where "h6 = snd (new_branches arrays h5)"
  define lh where "lh = (case l_counts v of
                      None \<Rightarrow> (None, h6)
                    | Some lineMap \<Rightarrow> (let (a, h) = new_lines lineMap h6 in (Some a, h)))"
  define h7 where "h7 = snd lh"
  define fo where "fo = \<lparr> statementMap_ref = next_addr h, s_ref = next_addr h1, fnMap_ref = next_addr h2,
                         f_ref = next_addr h3, b_ref = next_addr h5, l_ref = fst lh \<rparr>"
  define h8 where "h8 = snd (new_file fo h7)"
  have jp: "json_parse v h = (next_addr h7, h8)"
    by (simp add: json_parse_def case_prod_beta Let_def h1_def h2_def h3_def h4_def h5_def h6_def h7_def
          h8_def arrays_def lh_def fo_def new_stmts_def new_counts_def new_fns_def new_branches_def
          new_file_def
          cong: option.case_cong)
  note na = new_arrays_result [of "b_counts v" h4, folded h5_def arrays_def]
  note nr = new_arrays_read [of "b_counts v" h4, folded h5_def arrays_def]
  have n1: "next_addr h1 = Suc (next_addr h)" by (simp add: h1_def new_stmts_def)
  have n2: "next_addr h2 = Suc (next_addr h1)" by (simp add: h2_def new_counts_def)
  have n3: "next_addr h3 = Suc (next_addr h2)" by (simp add: h3_def new_fns_def)
  have n4: "next_addr h4 = Suc (next_addr h3)" by (simp add: h4_def new_counts_def)
  have n5: "next_addr h4 \<le> next_addr h5" using na by simp
  have fo8: "file_at h8 (next_addr h7) = fo" by (simp add: h8_def new_file_def)
  have st: "stmts_at h8 (next_addr h) = statementMap v"
    using na by (simp add: h8_def new_file_def h7_def lh_def new_lines_def h6_def new_branches_def
          h4_def new_counts_def h3_def new_fns_def h2_def h1_def new_stmts_def split: option.splits)
  have fn: "fns_at h8 (next_addr h2) = fnMap v"
    using na by (simp add: h8_def new_file_def h7_def lh_def new_lines_def h6_def new_branches_def
          h4_def new_counts_def h3_def new_fns_def split: option.splits)
  have c8: "counts_at h8 = counts_at h4"
    using na by (simp add: h8_def new_file_def h7_def lh_def new_lines_def h6_def new_branches_def
          split: option.splits)
  have sc: "counts_at h4 (next_addr h1) = s_counts v"
    using n2 by (simp add: h4_def new_counts_def h3_def new_fns_def h2_def)
  have fc: "counts_at h4 (next_addr h3) = f_counts v"
    by (simp add: h4_def new_counts_def)
  have br: "branches_at h8 (next_addr h5) = arrays"
    by (simp add: h8_def new_file_def h7_def lh_def new_lines_def h6_def new_branches_def
          split: option.splits)
  have ar: "array_at h8 = array_at h5"
    by (simp add: h8_def new_file_def h7_def lh_def new_lines_def h6_def new_branches_def
          split: option.splits)
  have ln: "map_option (lines_at h8) (fst lh) = l_counts v"
    by (simp add: h8_def new_file_def h7_def lh_def new_lines_def split: option.splits)
  have "read_file h8 (next_addr h7) = v"
    using nr by (simp add: read_file_def Let_def fo8 fo_def st fn c8 sc fc br ar ln)
  moreover have "s_ref fo \<noteq> f_ref fo" using n2 n3 by (simp add: fo_def)
  moreover have "distinct (map snd (branches_at h8 (b_ref fo)))" using nr br by (simp add: fo_def)
  ultimately show ?thesis by (simp add: jp fo8)
qed

text \<open>
  The loops on the heap compute what the loops on values compute, as long as the object
  written to is not the object read from.
\<close>

lemma fold_add_count_value:
  assumes "field (file_at h ret) \<noteq> field (file_at h second)"
  shows "same_but_counts h (fold (add_count field ret second) ks h)
       \<and> counts_at (fold (add_count field ret second) ks h) (field (file_at h ret))
           = fold (\<lambda>k r. AList.update k
                            (js_plus (map_of r k) (map_of (counts_at h (field (file_at h second))) k)) r)
                  ks (counts_at h (field (file_at h ret)))
       \<and> (\<forall>a. a \<noteq> field (file_at h ret) \<longrightarrow>
              counts_at (fold (add_count field ret second) ks h) a = counts_at h a)"
  using assms
proof (induction ks arbitrary: h)
  case Nil
  then show ?case by (simp add: same_but_counts_def)
next
  case (Cons k ks)
  define h1 where "h1 = add_count field ret second k h"
  let ?rs = "field (file_at h ret)"
  let ?ss = "field (file_at h second)"
  have s1: "same_but_counts h h1" by (simp add: h1_def add_count_def Let_def same_but_counts_def)
  then have f1: "file_at h1 = file_at h" by (simp add: same_but_counts_def)
  have c1: "counts_at h1 ?rs
              = AList.update k (js_plus (map_of (counts_at h ?rs) k) (map_of (counts_at h ?ss) k)) (counts_at h ?rs)"
    by (simp add: h1_def add_count_def Let_def)
  have o1: "\<forall>a. a \<noteq> ?rs \<longrightarrow> counts_at h1 a = counts_at h a"
    by (simp add: h1_def add_count_def Let_def)
  with Cons.prems have ss1: "counts_at h1 ?ss = counts_at h ?ss" by simp
  from Cons.prems f1 have "field (file_at h1 ret) \<noteq> field (file_at h1 second)" by simp
  note IH = Cons.IH [OF this, unfolded f1]
  have step: "fold (add_count field ret second) (k # ks) h = fold (add_count field ret second) ks h1"
    by (simp add: h1_def)
  from IH s1 c1 o1 ss1 show ?case unfolding step by (simp add: same_but_counts_def)
qed

lemma fold_entries_keys:
  "\<forall>(k, v) \<in> set xs. map_of S k = Some v \<Longrightarrow>
   fold (\<lambda>(k, v) r. AList.update k (js_plus (map_of r k) (Some v)) r) xs R
     = fold (\<lambda>k r. AList.update k (js_plus (map_of r k) (map_of S k)) r) (map fst xs) R"
  by (induction xs arbitrary: R) auto

lemma add_counts_value:
  assumes "field (file_at h ret) \<noteq> field (file_at h second)"
    and "distinct (map fst (counts_at h (field (file_at h second))))"
  shows "same_but_counts h (add_counts field ret second h)
       \<and> counts_at (add_counts field ret second h) (field (file_at h ret))
           = merge_counts (counts_at h (field (file_at h ret))) (counts_at h (field (file_at h second)))
       \<and> (\<forall>a. a \<noteq> field (file_at h ret) \<longrightarrow> counts_at (add_counts field ret second h) a = counts_at h a)"
proof -
  let ?S = "counts_at h (field (file_at h second))"
  from assms(2) have "\<forall>(k, v) \<in> set ?S. map_of ?S k = Some v" by auto
  from fold_entries_keys [OF this]
  have "merge_counts (counts_at h (field (file_at h ret))) ?S
          = fold (\<lambda>k r. AList.update k (js_plus (map_of r k) (map_of ?S k)) r) (map fst ?S)
              (counts_at h (field (file_at h ret)))"
    by (simp add: merge_counts_def)
  with fold_add_count_value [OF assms(1), of "map fst ?S"] show ?thesis
    by (simp add: add_counts_def)
qed

lemma fold_add_arm_value:
  assumes "retArray \<noteq> secondArray"
  shows "same_but_arrays h (fold (add_arm retArray secondArray) is h)
       \<and> array_at (fold (add_arm retArray secondArray) is h) retArray
           = fold (\<lambda>i arr. arr[i := js_plus (array_get arr i) (array_get (array_at h secondArray) i)])
               is (array_at h retArray)
       \<and> (\<forall>a. a \<noteq> retArray \<longrightarrow> array_at (fold (add_arm retArray secondArray) is h) a = array_at h a)"
proof (induction "is" arbitrary: h)
  case Nil
  then show ?case by (simp add: same_but_arrays_def)
next
  case (Cons i "is")
  define h1 where "h1 = add_arm retArray secondArray i h"
  have s1: "same_but_arrays h h1" by (simp add: h1_def add_arm_def Let_def same_but_arrays_def)
  have c1: "array_at h1 retArray
              = (array_at h retArray)[i := js_plus (array_get (array_at h retArray) i)
                                                   (array_get (array_at h secondArray) i)]"
    by (simp add: h1_def add_arm_def Let_def)
  have o1: "\<forall>a. a \<noteq> retArray \<longrightarrow> array_at h1 a = array_at h a"
    by (simp add: h1_def add_arm_def Let_def)
  with assms have ss1: "array_at h1 secondArray = array_at h secondArray" by simp
  note IH = Cons.IH [of h1]
  have step: "fold (add_arm retArray secondArray) (i # is) h = fold (add_arm retArray secondArray) is h1"
    by (simp add: h1_def)
  from IH s1 c1 o1 ss1 show ?case unfolding step by (simp add: same_but_arrays_def)
qed

lemma add_arms_value:
  assumes "retArray \<noteq> secondArray"
  shows "same_but_arrays h (add_arms retArray secondArray h)
       \<and> array_at (add_arms retArray secondArray h) retArray
           = merge_arrays (array_at h retArray) (array_at h secondArray)
       \<and> (\<forall>a. a \<noteq> retArray \<longrightarrow> array_at (add_arms retArray secondArray h) a = array_at h a)"
  using fold_add_arm_value [OF assms, of h "[0..<length (array_at h retArray)]"]
  by (simp add: add_arms_def merge_arrays_def)

lemma view_update:
  assumes "map_of refs k = Some ra" and "distinct (map snd refs)"
  shows "map (\<lambda>(k', r). (k', (if r = ra then m else g r))) refs
           = AList.update k m (map (\<lambda>(k', r). (k', g r)) refs)"
  using assms
proof (induction refs)
  case Nil
  then show ?case by simp
next
  case (Cons p refs)
  obtain k' r' where p: "p = (k', r')" by (cases p)
  show ?case
  proof (cases "k' = k")
    case True
    with Cons.prems p have r: "r' = ra" and "ra \<notin> snd ` set refs" by auto
    then have "\<forall>q\<in>set refs. snd q \<noteq> ra" by force
    then have "map (\<lambda>(k', r). (k', (if r = ra then m else g r))) refs = map (\<lambda>(k', r). (k', g r)) refs"
      by (intro map_cong) (simp_all add: case_prod_beta)
    with True p r show ?thesis by simp
  next
    case False
    with Cons.prems p have m: "map_of refs k = Some ra" and d: "distinct (map snd refs)" by auto
    from m have "(k, ra) \<in> set refs" by (rule map_of_SomeD)
    then have "ra \<in> snd ` set refs" by force
    with Cons.prems(2) p have "r' \<noteq> ra" by auto
    with Cons.IH [OF m d] False p show ?thesis by simp
  qed
qed


lemma add_branches_value:
  assumes "branches_at h (b_ref (file_at h ret)) = refs"
    and "branches_at h (b_ref (file_at h second)) = refs2"
    and "distinct (map snd refs)"
    and "\<forall>k\<in>set ks. \<exists>sa. map_of refs2 k = Some sa \<and> sa \<notin> snd ` set refs"
  shows "same_but_arrays h (snd (add_branches ret second ks h))
       \<and> (\<forall>a. a \<notin> snd ` set refs \<longrightarrow> array_at (snd (add_branches ret second ks h)) a = array_at h a)
       \<and> (case merge_branches (map (\<lambda>(k, r). (k, array_at h r)) refs)
                 (map (\<lambda>k. (k, array_at h (the (map_of refs2 k)))) ks) of
             Inl e \<Rightarrow> fst (add_branches ret second ks h) = Inl e
           | Inr rb \<Rightarrow> fst (add_branches ret second ks h) = Inr ()
                \<and> map (\<lambda>(k, r). (k, array_at (snd (add_branches ret second ks h)) r)) refs = rb)"
  using assms
proof (induction ks arbitrary: h)
  case Nil
  then show ?case by (simp add: same_but_arrays_def)
next
  case (Cons k ks)
  let ?view = "map (\<lambda>(k, r). (k, array_at h r)) refs"
  have mv: "map_of ?view k = map_option (array_at h) (map_of refs k)"
    by (simp add: map_of_map)
  from Cons.prems(4) obtain sa where sa: "map_of refs2 k = Some sa" "sa \<notin> snd ` set refs" by auto
  show ?case
  proof (cases "map_of refs k")
    case None
    with mv Cons.prems(1) show ?thesis by (simp add: same_but_arrays_def)
  next
    case (Some ra)
    then have "(k, ra) \<in> set refs" by (rule map_of_SomeD)
    then have ra: "ra \<in> snd ` set refs" by force
    with sa have ne: "ra \<noteq> sa" by auto
    define h1 where "h1 = add_arms ra sa h"
    define M where "M = merge_arrays (array_at h ra) (array_at h sa)"
    note av = add_arms_value [OF ne, of h, folded h1_def M_def]
    from av have e1: "file_at h1 = file_at h" "branches_at h1 = branches_at h"
      by (simp_all add: same_but_arrays_def)
    have a1: "array_at h1 r = (if r = ra then M else array_at h r)" for r
      using av by simp
    have step: "add_branches ret second (k # ks) h = add_branches ret second ks h1"
      using Some sa Cons.prems(1,2) by (simp add: h1_def)
    have v1: "map (\<lambda>(k, r). (k, array_at h1 r)) refs = AList.update k M ?view"
      unfolding a1 using Some Cons.prems(3) by (rule view_update)
    have es: "map (\<lambda>k. (k, array_at h1 (the (map_of refs2 k)))) ks
                = map (\<lambda>k. (k, array_at h (the (map_of refs2 k)))) ks"
    proof (rule map_cong [OF refl])
      fix k' assume "k' \<in> set ks"
      with Cons.prems(4) obtain sa' where "map_of refs2 k' = Some sa'" "sa' \<notin> snd ` set refs" by auto
      with ra have "the (map_of refs2 k') \<noteq> ra" by auto
      then show "(k', array_at h1 (the (map_of refs2 k'))) = (k', array_at h (the (map_of refs2 k')))"
        by (simp add: a1)
    qed
    have vstep: "merge_branches ?view (map (\<lambda>k. (k, array_at h (the (map_of refs2 k)))) (k # ks))
                   = merge_branches (map (\<lambda>(k, r). (k, array_at h1 r)) refs)
                       (map (\<lambda>k. (k, array_at h1 (the (map_of refs2 k)))) ks)"
      using Some sa by (simp add: mv v1 es M_def)
    have p1: "branches_at h1 (b_ref (file_at h1 ret)) = refs"
      "branches_at h1 (b_ref (file_at h1 second)) = refs2"
      using Cons.prems(1,2) e1 by simp_all
    have p4: "\<forall>k\<in>set ks. \<exists>sa. map_of refs2 k = Some sa \<and> sa \<notin> snd ` set refs"
      using Cons.prems(4) by simp
    note IH = Cons.IH [OF p1 Cons.prems(3) p4]
    have s: "same_but_arrays h (snd (add_branches ret second ks h1))"
      using IH av by (simp add: same_but_arrays_def)
    have o: "\<forall>a. a \<notin> snd ` set refs \<longrightarrow> array_at (snd (add_branches ret second ks h1)) a = array_at h a"
      using IH ra by (auto simp add: a1)
    from IH s o show ?thesis unfolding step vstep by simp
  qed
qed


text \<open>
  For two allocated arguments (the keys of the second one's \<^verbatim>\<open>s\<close>, \<^verbatim>\<open>f\<close> and
  \<^verbatim>\<open>b\<close> distinct, as the keys of an object are), the function on the heap throws when
  the function on values does, and otherwise returns an object whose value is the one the
  function on values returns.
\<close>

lemma mergeFileCoverage_heap_value:
  assumes a1: "allocated h first" and a2: "allocated h second"
    and ds: "distinct (map fst (s_counts (read_file h second)))"
    and df: "distinct (map fst (f_counts (read_file h second)))"
    and db: "distinct (map fst (b_counts (read_file h second)))"
  shows "case mergeFileCoverage (read_file h first) (read_file h second) of
           Inl e \<Rightarrow> fst (mergeFileCoverage_heap h first second) = Inl e
         | Inr v \<Rightarrow>
             (\<exists>ret. fst (mergeFileCoverage_heap h first second) = Inr ret
                  \<and> read_file (snd (mergeFileCoverage_heap h first second)) ret = v)"
proof -
  define n where "n = next_addr h"
  define V2 where "V2 = read_file h second"
  define v where "v = json_copy (read_file h first)"
  define ret where "ret = fst (json_parse v h)"
  define h1 where "h1 = snd (json_parse v h)"
  define h2 where "h2 = h1\<lparr> file_at := (file_at h1)(ret := (file_at h1 ret)\<lparr> l_ref := None \<rparr>) \<rparr>"
  define h3 where "h3 = add_counts s_ref ret second h2"
  define h4 where "h4 = add_counts f_ref ret second h3"
  define ks where "ks = map fst (branches_at h4 (b_ref (file_at h4 second)))"
  define h5 where "h5 = snd (add_branches ret second ks h4)"
  define r where "r = fst (add_branches ret second ks h4)"
  define fo where "fo = file_at h1 ret"
  define fo2 where "fo2 = file_at h second"
  define refs where "refs = branches_at h1 (b_ref fo)"
  define refs2 where "refs2 = branches_at h (b_ref fo2)"
  have m: "mergeFileCoverage_heap h first second
             = (case r of Inl e \<Rightarrow> (Inl e, h5) | Inr _ \<Rightarrow> (Inr ret, h5))"
    by (simp add: mergeFileCoverage_heap_def case_prod_beta Let_def v_def ret_def h1_def h2_def
          h3_def h4_def ks_def h5_def r_def cong: sum.case_cong)
  note jp = json_parse_result [of h v, folded ret_def h1_def n_def, folded fo_def, folded refs_def]
  note jr = json_parse_read [of v h, folded ret_def h1_def, folded fo_def, folded refs_def]
  \<comment> \<open>the second argument, which lies below \<open>n\<close>\<close>
  from a2 have s2: "second < n" "s_ref fo2 < n" "f_ref fo2 < n" "b_ref fo2 < n"
    "list_all (\<lambda>(k, r). r < n) refs2"
    by (simp_all add: allocated_def Let_def n_def fo2_def refs2_def)
  from jp have u1: "unchanged_below n h h1" by simp
  have sec1: "file_at h1 second = fo2" "counts_at h1 (s_ref fo2) = counts_at h (s_ref fo2)"
    "counts_at h1 (f_ref fo2) = counts_at h (f_ref fo2)" "branches_at h1 (b_ref fo2) = refs2"
    using u1 s2 by (simp_all add: unchanged_below_def fo2_def refs2_def)
  have arr1: "\<forall>(k, r) \<in> set refs2. array_at h1 r = array_at h r"
    using u1 s2(5) by (auto simp add: unchanged_below_def list_all_iff)
  have V2: "s_counts V2 = counts_at h (s_ref fo2)" "f_counts V2 = counts_at h (f_ref fo2)"
    "b_counts V2 = map (\<lambda>(k, r). (k, array_at h r)) refs2"
    by (simp_all add: V2_def read_file_def Let_def fo2_def refs2_def)
  \<comment> \<open>the copy, which lies from \<open>n\<close> on\<close>
  from jp have fr: "n \<le> ret" "n \<le> s_ref fo" "n \<le> f_ref fo" "list_all (\<lambda>(k, r). n \<le> r) refs"
    by simp_all
  from jr have rd: "read_file h1 ret = v" and sf: "s_ref fo \<noteq> f_ref fo" and dr: "distinct (map snd refs)"
    by simp_all
  have parts: "stmts_at h1 (statementMap_ref fo) = statementMap v" "counts_at h1 (s_ref fo) = s_counts v"
    "fns_at h1 (fnMap_ref fo) = fnMap v" "counts_at h1 (f_ref fo) = f_counts v"
    "map (\<lambda>(k, r). (k, array_at h1 r)) refs = b_counts v"
    using rd [symmetric] by (simp_all add: read_file_def Let_def fo_def refs_def)
  have ne: "ret \<noteq> second" using fr(1) s2(1) by simp
  have f2: "file_at h2 ret = fo\<lparr> l_ref := None \<rparr>" "file_at h2 second = fo2"
    using ne sec1(1) by (simp_all add: h2_def fo_def)
  have e2: "stmts_at h2 = stmts_at h1" "fns_at h2 = fns_at h1" "counts_at h2 = counts_at h1"
    "branches_at h2 = branches_at h1" "array_at h2 = array_at h1"
    by (simp_all add: h2_def)
  \<comment> \<open>the loop over the keys of \<^verbatim>\<open>second.s\<close>\<close>
  have c3: "same_but_counts h2 h3
       \<and> counts_at h3 (s_ref fo) = merge_counts (s_counts v) (s_counts V2)
       \<and> (\<forall>a. a \<noteq> s_ref fo \<longrightarrow> counts_at h3 a = counts_at h2 a)"
  proof -
    have 1: "s_ref (file_at h2 ret) \<noteq> s_ref (file_at h2 second)"
      using fr(2) s2(2) by (simp add: f2)
    have 2: "distinct (map fst (counts_at h2 (s_ref (file_at h2 second))))"
      using ds by (simp add: f2 e2 sec1 V2 V2_def [symmetric])
    from add_counts_value [OF 1 2, folded h3_def] show ?thesis
      by (simp add: f2 e2 sec1 parts V2)
  qed
  then have e3: "file_at h3 = file_at h2" "stmts_at h3 = stmts_at h2" "fns_at h3 = fns_at h2"
    "branches_at h3 = branches_at h2" "array_at h3 = array_at h2"
    by (simp_all add: same_but_counts_def)
  \<comment> \<open>the loop over the keys of \<^verbatim>\<open>second.f\<close>\<close>
  have c4: "same_but_counts h3 h4
       \<and> counts_at h4 (f_ref fo) = merge_counts (f_counts v) (f_counts V2)
       \<and> (\<forall>a. a \<noteq> f_ref fo \<longrightarrow> counts_at h4 a = counts_at h3 a)"
  proof -
    have 1: "f_ref (file_at h3 ret) \<noteq> f_ref (file_at h3 second)"
      using fr(3) s2(3) by (simp add: e3 f2)
    have k: "counts_at h3 (f_ref fo2) = counts_at h (f_ref fo2)"
      using c3 fr(2) s2(3) by (simp add: e2 sec1)
    have 2: "distinct (map fst (counts_at h3 (f_ref (file_at h3 second))))"
      using df by (simp add: e3 f2 k V2 V2_def [symmetric])
    have k': "counts_at h3 (f_ref fo) = f_counts v"
      using c3 sf by (simp add: e2 parts)
    from add_counts_value [OF 1 2, folded h4_def] show ?thesis
      by (simp add: e3 f2 k k' V2)
  qed
  then have e4: "file_at h4 = file_at h2" "stmts_at h4 = stmts_at h2" "fns_at h4 = fns_at h2"
    "branches_at h4 = branches_at h2" "array_at h4 = array_at h2"
    using e3 by (simp_all add: same_but_counts_def)
  have s4: "counts_at h4 (s_ref fo) = merge_counts (s_counts v) (s_counts V2)"
    using c3 c4 sf by simp
  \<comment> \<open>the loop over the keys of \<^verbatim>\<open>second.b\<close>\<close>
  have b1: "branches_at h4 (b_ref (file_at h4 ret)) = refs"
    by (simp add: e4 e2 f2 refs_def)
  have b2: "branches_at h4 (b_ref (file_at h4 second)) = refs2"
    by (simp add: e4 e2 f2 sec1)
  have ks: "ks = map fst refs2" by (simp add: ks_def b2)
  from db have dk: "distinct (map fst refs2)" by (simp add: V2 V2_def [symmetric] case_prod_beta comp_def)
  have b4: "\<forall>k\<in>set ks. \<exists>sa. map_of refs2 k = Some sa \<and> sa \<notin> snd ` set refs"
  proof
    fix k assume "k \<in> set ks"
    then obtain sa where m: "(k, sa) \<in> set refs2" by (auto simp add: ks)
    with dk have "map_of refs2 k = Some sa" by simp
    moreover from m s2(5) have "sa < n" by (auto simp add: list_all_iff)
    with fr(4) have "sa \<notin> snd ` set refs" by (auto simp add: list_all_iff)
    ultimately show "\<exists>sa. map_of refs2 k = Some sa \<and> sa \<notin> snd ` set refs" by blast
  qed
  note ab = add_branches_value [OF b1 b2 dr b4, folded h5_def r_def]
  have view4: "map (\<lambda>(k, r). (k, array_at h4 r)) refs = b_counts v"
    by (simp add: e4 e2 parts)
  have ent: "map (\<lambda>k. (k, array_at h4 (the (map_of refs2 k)))) ks = b_counts V2"
    unfolding ks V2 map_map
  proof (rule map_cong [OF refl])
    fix p assume p: "p \<in> set refs2"
    obtain k sa where ksa: "p = (k, sa)" by (cases p)
    with p dk have "map_of refs2 k = Some sa" by simp
    moreover from p ksa arr1 have "array_at h4 sa = array_at h sa" by (auto simp add: e4 e2)
    ultimately show "((\<lambda>k. (k, array_at h4 (the (map_of refs2 k)))) \<circ> fst) p
                       = (case p of (k, r) \<Rightarrow> (k, array_at h r))"
      by (simp add: ksa)
  qed
  from ab have e5: "file_at h5 = file_at h2" "stmts_at h5 = stmts_at h2" "fns_at h5 = fns_at h2"
    "branches_at h5 = branches_at h2" "counts_at h5 = counts_at h4"
    using e4 by (simp_all add: same_but_arrays_def)
  \<comment> \<open>the function on values\<close>
  have val: "mergeFileCoverage (read_file h first) (read_file h second)
               = (case merge_branches (b_counts v) (b_counts V2) of
                    Inl e \<Rightarrow> Inl e
                  | Inr rb \<Rightarrow>
                      Inr \<lparr> statementMap = statementMap v,
                            s_counts = merge_counts (s_counts v) (s_counts V2),
                            fnMap = fnMap v,
                            f_counts = merge_counts (f_counts v) (f_counts V2),
                            b_counts = rb, l_counts = None \<rparr>)"
    by (cases v) (simp add: mergeFileCoverage_def Let_def v_def [symmetric] V2_def [symmetric]
          split: sum.splits)
  show ?thesis
  proof (cases "merge_branches (b_counts v) (b_counts V2)")
    case (Inl e)
    with ab view4 ent have "r = Inl e" by simp
    with Inl val m show ?thesis by simp
  next
    case (Inr rb)
    with ab view4 ent have r: "r = Inr ()" and rb: "map (\<lambda>(k, r). (k, array_at h5 r)) refs = rb"
      by simp_all
    have "read_file h5 ret = \<lparr> statementMap = statementMap v,
                            s_counts = merge_counts (s_counts v) (s_counts V2),
                            fnMap = fnMap v,
                            f_counts = merge_counts (f_counts v) (f_counts V2),
                            b_counts = rb, l_counts = None \<rparr>"
      using rb s4 c4 by (simp add: read_file_def Let_def e5 f2 e2 parts refs_def [symmetric])
    with Inr val m r show ?thesis by simp
  qed
qed

end
